theory Spec2Isabelle
  imports Complex_Main "HOL-Library.Multiset" "HOL-Library.Log_Nat"
begin

section \<open>Strings\<close>

text \<open>
  A JavaScript string is modelled as a \<^typ>\<open>string\<close>: a list of characters, each read
  as one code unit in the range U+0000..U+00FF. The library functions the program calls
  on strings (\<^verbatim>\<open>trim\<close>, \<^verbatim>\<open>toLowerCase\<close>, \<^verbatim>\<open>includes\<close>, \<^verbatim>\<open>padStart\<close>) are written out
  for that range.
\<close>

definition isSpace :: "char \<Rightarrow> bool" where
  \<comment> \<open>White space and line terminators of ECMAScript below U+0100:
      TAB, LF, VT, FF, CR, SP and NBSP. The same set is matched by \<^verbatim>\<open>\s\<close>.\<close>
  "isSpace c = ((of_char c :: nat) \<in> {9, 10, 11, 12, 13, 32, 160})"

definition isDigit :: "char \<Rightarrow> bool" where
  \<comment> \<open>\<^verbatim>\<open>\d\<close>: the ten ASCII digits.\<close>
  "isDigit c = (48 \<le> (of_char c :: nat) \<and> (of_char c :: nat) \<le> 57)"

definition lowerChar :: "char \<Rightarrow> char" where
  \<comment> \<open>Lower-case mapping of one code unit below U+0100: A..Z and the accented capitals
      U+00C0..U+00DE (without the multiplication sign U+00D7) move up by 32.\<close>
  "lowerChar c =
     (let n = (of_char c :: nat) in
      if (65 \<le> n \<and> n \<le> 90) \<or> (192 \<le> n \<and> n \<le> 214) \<or> (216 \<le> n \<and> n \<le> 222)
      then char_of (n + 32) else c)"

definition toLowerCase :: "string \<Rightarrow> string" where
  "toLowerCase s = map lowerChar s"

definition trim :: "string \<Rightarrow> string" where
  "trim s = rev (dropWhile isSpace (rev (dropWhile isSpace s)))"

fun startsWith :: "string \<Rightarrow> string \<Rightarrow> bool" where
  "startsWith s [] = True"
| "startsWith [] (c # t) = False"
| "startsWith (d # s) (c # t) = (d = c \<and> startsWith s t)"

fun str_includes :: "string \<Rightarrow> string \<Rightarrow> bool" where
  \<comment> \<open>\<^verbatim>\<open>s.includes(t)\<close>: \<open>t\<close> occurs in \<open>s\<close> as a contiguous run.\<close>
  "str_includes [] t = (t = [])"
| "str_includes (d # s) t = (startsWith (d # s) t \<or> str_includes s t)"

section \<open>Numbers\<close>

text \<open>
  A JavaScript number is an IEEE 754 double. It is modelled as the rational it denotes,
  and every arithmetic operation and every decimal literal of the program as the exact
  result rounded to the nearest double, ties to the even significand (\<open>double\<close>).
  The significand has 53 bits. The values the program computes are 0 or lie between
  \<open>2\<^sup>-\<^sup>5\<^sup>3\<close> and \<open>2\<^sup>5\<^sup>3\<close> in magnitude, far from the subnormal numbers and from
  overflow, which are therefore left out. Comparisons and \<^verbatim>\<open>Math.max\<close> are exact.
\<close>

definition expo :: "rat \<Rightarrow> int" where
  \<comment> \<open>for \<open>x > 0\<close>: the exponent \<open>e\<close> with \<open>2\<^sup>e \<le> x < 2\<^sup>e\<^sup>+\<^sup>1\<close>\<close>
  "expo x = (case quotient_of x of (a, b) \<Rightarrow>
               let e0 = bitlen a - bitlen b in if 2 powi e0 \<le> x then e0 else e0 - 1)"

definition roundHalfEven :: "rat \<Rightarrow> int" where
  "roundHalfEven q =
     (let f = \<lfloor>q\<rfloor>; r = q - of_int f
      in if r < 1 / 2 then f else if 1 / 2 < r then f + 1 else if even f then f else f + 1)"

definition double :: "rat \<Rightarrow> rat" where
  "double x =
     (if x = 0 then 0
      else let u = 2 powi (expo \<bar>x\<bar> - 52)
           in sgn x * of_int (roundHalfEven (\<bar>x\<bar> / u)) * u)"

section \<open>Similarity of two strings\<close>

text \<open>
  \<^verbatim>\<open>calculateSimilarity\<close> fills a matrix row by row. Row \<open>i\<close> starts as \<open>[i]\<close> and is
  extended by one cell for each \<open>j = 1..len2\<close>; a cell reads the row above
  (\<open>prev\<close>) and the cell to its left in the row being filled (\<open>cur\<close>). Row \<open>0\<close> is
  \<open>[0, 1, ..., len2]\<close>.
\<close>

definition cellValue :: "string \<Rightarrow> string \<Rightarrow> nat list \<Rightarrow> nat list \<Rightarrow> nat \<Rightarrow> nat \<Rightarrow> nat" where
  "cellValue s1 s2 prev cur i j =
     (let cost = (if s1 ! (i - 1) = s2 ! (j - 1) then 0 else 1) in
      min (min (prev ! j + 1) (cur ! (j - 1) + 1)) (prev ! (j - 1) + cost))"

fun fillRow :: "string \<Rightarrow> string \<Rightarrow> nat list \<Rightarrow> nat \<Rightarrow> nat list \<Rightarrow> nat list \<Rightarrow> nat list" where
  "fillRow s1 s2 prev i cur [] = cur"
| "fillRow s1 s2 prev i cur (j # js) =
     fillRow s1 s2 prev i (cur @ [cellValue s1 s2 prev cur i j]) js"

definition nextRow :: "string \<Rightarrow> string \<Rightarrow> nat list \<Rightarrow> nat \<Rightarrow> nat list" where
  "nextRow s1 s2 prev i = fillRow s1 s2 prev i [i] [1 ..< Suc (length s2)]"

definition lastRow :: "string \<Rightarrow> string \<Rightarrow> nat list" where
  "lastRow s1 s2 = foldl (nextRow s1 s2) [0 ..< Suc (length s2)] [1 ..< Suc (length s1)]"

definition levenshtein :: "string \<Rightarrow> string \<Rightarrow> nat" where
  \<comment> \<open>\<^verbatim>\<open>matrix[len1][len2]\<close>\<close>
  "levenshtein s1 s2 = lastRow s1 s2 ! length s2"

definition calculateSimilarity :: "string \<Rightarrow> string \<Rightarrow> rat" where
  "calculateSimilarity str1 str2 =
     (if str1 = [] \<or> str2 = [] then 0
      else
        let s1 = trim (toLowerCase str1);
            s2 = trim (toLowerCase str2)
        in if s1 = s2 then 1
           else if str_includes s1 s2 \<or> str_includes s2 s1 then double (8 / 10)
           else
             let len1 = length s1; len2 = length s2
             in if len1 = 0 then (if len2 = 0 then 1 else 0)
                else if len2 = 0 then 0
                else
                  let distance = levenshtein s1 s2;
                      maxLen = max len1 len2;
                      similarity = double (1 - double (of_nat distance / of_nat maxLen))
                  in similarity)"

text \<open>The edit distance by recursion on the two strings, read from their last characters.\<close>

fun ed :: "'a list \<Rightarrow> 'a list \<Rightarrow> nat" where
  "ed [] ys = length ys"
| "ed (x # xs) [] = Suc (length xs)"
| "ed (x # xs) (y # ys) =
     min (min (ed xs (y # ys) + 1) (ed (x # xs) ys + 1)) (ed xs ys + (if x = y then 0 else 1))"

text \<open>\<open>pd s1 s2 i j\<close> is the distance between the first \<open>i\<close> characters of \<open>s1\<close> and the
  first \<open>j\<close> of \<open>s2\<close>: what the matrix holds at row \<open>i\<close>, column \<open>j\<close>.\<close>

definition pd :: "string \<Rightarrow> string \<Rightarrow> nat \<Rightarrow> nat \<Rightarrow> nat" where
  "pd s1 s2 i j = ed (rev (take i s1)) (rev (take j s2))"


section \<open>Row normalizer\<close>

text \<open>
  The raw table of the sheet feed. A column is \<open>None\<close> when the column object or its
  label is null or absent, otherwise \<open>Some\<close> of the label. A raw row is \<open>None\<close> when
  the row object is null or has no cell array \<^verbatim>\<open>c\<close>. A cell is \<open>None\<close> when the cell is
  null or its value \<^verbatim>\<open>v\<close> is null or undefined, otherwise \<open>Some\<close> of \<^verbatim>\<open>String(cell.v)\<close>.

  A row object is an association list in insertion order; assigning to a key that is
  present replaces the value where it stands. The order of the entries is not read by
  the code embedded here: \<^verbatim>\<open>Object.values(rowData).some\<close> asks whether some value has
  text, and the extractor reads a row by key. So it makes no difference that the engine
  lists keys that look like array indices before the others.

  The labels of a sheet are taken not to be names of members of \<^verbatim>\<open>Object.prototype\<close>
  (\<^verbatim>\<open>__proto__\<close>, \<^verbatim>\<open>constructor\<close>, \<^verbatim>\<open>toString\<close> and the like). For such a label the row
  object of the code behaves otherwise than a table of keys and values: an assignment
  to \<^verbatim>\<open>__proto__\<close> stores no entry, and reading a label that the row does not hold gives
  the inherited member, not \<^verbatim>\<open>undefined\<close>. The sheet the program reads has the
  labels of a signup form, and none of them is such a name.
\<close>

type_synonym row = "(string \<times> string) list"

record table =
  cols :: "string option list"
  raw_rows :: "string option list option list"

record sheetData =
  columns :: "string list"
  rows :: "row list"

fun objSet :: "row \<Rightarrow> string \<Rightarrow> string \<Rightarrow> row" where
  "objSet [] k v = [(k, v)]"
| "objSet ((k', v') # r) k v = (if k' = k then (k, v) # r else (k', v') # objSet r k v)"

definition digitChar :: "nat \<Rightarrow> char" where
  "digitChar d = char_of (48 + d)"

fun natToString :: "nat \<Rightarrow> string" where
  "natToString n = (if n < 10 then [digitChar n] else natToString (n div 10) @ [digitChar (n mod 10)])"

declare natToString.simps [simp del]

definition nthOpt :: "'a list \<Rightarrow> nat \<Rightarrow> 'a option" where
  \<comment> \<open>\<^verbatim>\<open>xs[i]\<close>: undefined out of range\<close>
  "nthOpt xs i = (if i < length xs then Some (xs ! i) else None)"

definition orDefault :: "string option \<Rightarrow> string \<Rightarrow> string" where
  \<comment> \<open>\<^verbatim>\<open>v || d\<close> for \<open>v\<close> a string or undefined: the empty string is falsy\<close>
  "orDefault v d = (case v of None \<Rightarrow> d | Some s \<Rightarrow> if s = [] then d else s)"

definition columnLabels :: "string option list \<Rightarrow> string list" where
  \<comment> \<open>\<^verbatim>\<open>table.cols.map(col => (col && col.label) ? col.label : '').filter(col => col !== '')\<close>\<close>
  "columnLabels cs = filter (\<lambda>col. col \<noteq> []) (map (\<lambda>col. orDefault col []) cs)"

definition columnName :: "string list \<Rightarrow> nat \<Rightarrow> string" where
  \<comment> \<open>\<^verbatim>\<open>(columns[index]) ? columns[index] : `Column${index + 1}`\<close>\<close>
  "columnName colNames index = orDefault (nthOpt colNames index) (''Column'' @ natToString (index + 1))"

definition cellString :: "string option \<Rightarrow> string" where
  "cellString cell = (case cell of None \<Rightarrow> [] | Some v \<Rightarrow> v)"

fun mapCells :: "string list \<Rightarrow> row \<Rightarrow> nat \<Rightarrow> string option list \<Rightarrow> row" where
  \<comment> \<open>\<^verbatim>\<open>row.c.forEach((cell, index) => ...)\<close>, from \<open>index\<close> on\<close>
  "mapCells colNames rowData index [] = rowData"
| "mapCells colNames rowData index (cell # cells) =
     mapCells colNames (objSet rowData (columnName colNames index) (cellString cell)) (Suc index) cells"

definition hasData :: "row \<Rightarrow> bool" where
  \<comment> \<open>\<^verbatim>\<open>Object.values(rowData).some(val => val && val.trim() !== '')\<close>\<close>
  "hasData rowData = list_ex (\<lambda>val. val \<noteq> [] \<and> trim val \<noteq> []) (map snd rowData)"

definition parseRow :: "string list \<Rightarrow> row list \<Rightarrow> string option list option \<Rightarrow> row list" where
  "parseRow colNames acc r =
     (case r of
        None \<Rightarrow> acc
      | Some c \<Rightarrow>
          (let rowData = mapCells colNames [] 0 c
           in if hasData rowData then acc @ [rowData] else acc))"

definition parseSheetData :: "table \<Rightarrow> sheetData" where
  "parseSheetData t =
     (let colNames = columnLabels (cols t)
      in \<lparr>columns = colNames, rows = foldl (parseRow colNames) [] (raw_rows t)\<rparr>)"

section \<open>Event field extractor\<close>

record eventFields =
  eventName :: string
  startDate :: string
  endDate :: string
  category :: string

record signup = eventFields +
  scoutName :: string
  isAdult :: bool
  rawRow :: row

definition padStart2 :: "string \<Rightarrow> string" where
  \<comment> \<open>\<^verbatim>\<open>s.padStart(2, '0')\<close>\<close>
  "padStart2 s = replicate (2 - length s) (CHR ''0'') @ s"

definition takeDigits2 :: "string \<Rightarrow> string \<times> string" where
  \<comment> \<open>\<^verbatim>\<open>\d{1,2}\<close>, greedy: the digits taken (none when the match fails) and the rest\<close>
  "takeDigits2 s =
     (case s of
        [] \<Rightarrow> ([], s)
      | a # r \<Rightarrow>
          if \<not> isDigit a then ([], s)
          else (case r of
                  [] \<Rightarrow> ([a], r)
                | b # r' \<Rightarrow> if isDigit b then ([a, b], r') else ([a], r)))"

definition matchDateAt :: "string \<Rightarrow> ((string \<times> string \<times> string) \<times> string) option" where
  \<comment> \<open>\<^verbatim>\<open>(\d{4})\s*-\s*(\d{1,2})\/(\d{1,2})\<close> matched at the start of \<open>s\<close>: the three
      groups and what follows the match. No alternative of a greedy choice can succeed
      where the greedy one fails, since a space is no dash and a digit is no slash.\<close>
  "matchDateAt s =
     (let year = take 4 s
      in if length year = 4 \<and> list_all isDigit year then
           (case dropWhile isSpace (drop 4 s) of
              [] \<Rightarrow> None
            | c # r \<Rightarrow>
                if c \<noteq> CHR ''-'' then None
                else
                  (case takeDigits2 (dropWhile isSpace r) of (month, r2) \<Rightarrow>
                     if month = [] then None
                     else
                       (case r2 of
                          [] \<Rightarrow> None
                        | d # r3 \<Rightarrow>
                            if d \<noteq> CHR ''/'' then None
                            else
                              (case takeDigits2 r3 of (day, r4) \<Rightarrow>
                                 if day = [] then None else Some ((year, month, day), r4)))))
         else None)"

fun matchDate :: "string \<Rightarrow> (string \<times> string \<times> string) option" where
  \<comment> \<open>\<^verbatim>\<open>eventName.match(/(\d{4})\s*-\s*(\d{1,2})\/(\d{1,2})/)\<close>: leftmost match\<close>
  "matchDate [] = None"
| "matchDate (c # s) =
     (case matchDateAt (c # s) of
        Some (g, r) \<Rightarrow> Some g
      | None \<Rightarrow> matchDate s)"

definition stripDatePrefix :: "string \<Rightarrow> string" where
  \<comment> \<open>\<^verbatim>\<open>eventName.replace(/^\d{4}\s*-\s*\d{1,2}\/\d{1,2}\s*-\s*/, '')\<close>\<close>
  "stripDatePrefix s =
     (case matchDateAt s of
        None \<Rightarrow> s
      | Some (g, r) \<Rightarrow>
          (case dropWhile isSpace r of
             [] \<Rightarrow> s
           | c # r' \<Rightarrow> if c = CHR ''-'' then dropWhile isSpace r' else s))"

definition categoryOf :: "string \<Rightarrow> string" where
  "categoryOf name =
     (if str_includes (toLowerCase name) ''eagle project'' then ''Eagle Project''
      else if str_includes (toLowerCase name) ''service project'' then ''Service Project''
      else if str_includes (toLowerCase name) ''fundraiser'' then ''Fundraiser''
      else if str_includes (toLowerCase name) ''camp'' then ''Camping''
      else ''Other'')"

definition eventCol :: "string list \<Rightarrow> string" where
  "eventCol colNames =
     orDefault (find (\<lambda>col. str_includes (toLowerCase col) ''event'' \<and>
                            str_includes (toLowerCase col) ''signup'') colNames)
    (orDefault (find (\<lambda>col. str_includes (toLowerCase col) ''event'' \<or>
                            str_includes (toLowerCase col) ''activity'') colNames)
    (orDefault (nthOpt colNames 1) ''Event''))"

definition firstNameCol :: "string list \<Rightarrow> string" where
  "firstNameCol colNames =
     orDefault (find (\<lambda>col. str_includes (toLowerCase col) ''first'' \<and>
                            str_includes (toLowerCase col) ''name'') colNames)
    (orDefault (nthOpt colNames 2) ''First Name'')"

definition lastNameCol :: "string list \<Rightarrow> string" where
  "lastNameCol colNames =
     orDefault (find (\<lambda>col. str_includes (toLowerCase col) ''last'' \<and>
                            str_includes (toLowerCase col) ''name'') colNames)
    (orDefault (nthOpt colNames 3) ''Last Name'')"

definition patrolCol :: "string list \<Rightarrow> string" where
  "patrolCol colNames =
     orDefault (find (\<lambda>col. str_includes (toLowerCase col) ''patrol'' \<or>
                            str_includes (toLowerCase col) ''leader'') colNames)
    (orDefault (nthOpt colNames 6) ''Patrol Leader - Patrol?'')"

definition extractEventFromRow :: "row \<Rightarrow> string list \<Rightarrow> signup" where
  \<comment> \<open>\<open>isAdult\<close> is the truth value of \<^verbatim>\<open>patrolValue && ...includes('adult')\<close>, which is
      all its only reader tests.\<close>
  "extractEventFromRow row colNames =
     (let eventNameFull = orDefault (map_of row (eventCol colNames)) [];
          firstName = orDefault (map_of row (firstNameCol colNames)) [];
          lastName = orDefault (map_of row (lastNameCol colNames)) [];
          patrolValue = orDefault (map_of row (patrolCol colNames)) [];
          scoutName' = trim (firstName @ '' '' @ lastName);
          isAdult' = (patrolValue \<noteq> [] \<and> str_includes (toLowerCase patrolValue) ''adult'');
          eventName0 = trim eventNameFull;
          startDate' = (case matchDate eventName0 of
                         None \<Rightarrow> []
                       | Some (year, month, day) \<Rightarrow>
                           year @ ''-'' @ padStart2 month @ ''-'' @ padStart2 day);
          endDate' = startDate';
          eventName' = trim (stripDatePrefix eventName0)
      in \<lparr>eventName = eventName', startDate = startDate', endDate = endDate',
          category = categoryOf eventName',
          scoutName = scoutName', isAdult = isAdult', rawRow = row\<rparr>)"

text \<open>
  The category in the words of the specification: an ordered list of rules, each a
  pattern and a category; the first rule whose pattern occurs in the lower-cased name
  gives the category, and \<open>Other\<close> is the category if there is none.
\<close>

definition categoryRules :: "(string \<times> string) list" where
  "categoryRules =
     [(''eagle project'', ''Eagle Project''),
      (''service project'', ''Service Project''),
      (''fundraiser'', ''Fundraiser''),
      (''camp'', ''Camping'')]"

definition specCategory :: "string \<Rightarrow> string" where
  "specCategory name =
     (case find (\<lambda>(pat, cat). str_includes (toLowerCase name) pat) categoryRules of
        None \<Rightarrow> ''Other''
      | Some (pat, cat) \<Rightarrow> cat)"

section \<open>Event aggregator\<close>

record event = eventFields +
  scouts :: "string list"
  adults :: "string list"

text \<open>
  The \<^verbatim>\<open>Map\<close> from event key to event object is an association list in insertion
  order. An event object reached through \<^verbatim>\<open>eventsMap.get\<close> is changed in place, which
  \<open>modifyAt\<close> does at the entry of the key.
\<close>

type_synonym eventsMap = "(string \<times> event) list"

definition modifyAt :: "string \<Rightarrow> (event \<Rightarrow> event) \<Rightarrow> eventsMap \<Rightarrow> eventsMap" where
  "modifyAt k f m = map (\<lambda>(k', e). if k' = k then (k', f e) else (k', e)) m"

definition addPerson :: "bool \<Rightarrow> string \<Rightarrow> event \<Rightarrow> event" where
  "addPerson adult personName e =
     (if adult then
        (if personName \<notin> set (adults e) then e\<lparr>adults := adults e @ [personName]\<rparr> else e)
      else
        (if personName \<notin> set (scouts e) then e\<lparr>scouts := scouts e @ [personName]\<rparr> else e))"

definition validSignup :: "signup \<Rightarrow> bool" where
  \<comment> \<open>\<^verbatim>\<open>eventInfo.eventName && eventInfo.startDate && eventInfo.scoutName\<close>\<close>
  "validSignup eventInfo =
     (eventName eventInfo \<noteq> [] \<and> startDate eventInfo \<noteq> [] \<and> scoutName eventInfo \<noteq> [])"

definition eventKey :: "signup \<Rightarrow> string" where
  "eventKey eventInfo =
     toLowerCase (eventName eventInfo @ ''_'' @ startDate eventInfo @ ''_'' @ endDate eventInfo)"

definition newEvent :: "signup \<Rightarrow> event" where
  "newEvent eventInfo =
     \<lparr>eventName = eventName eventInfo,
      startDate = startDate eventInfo,
      endDate = (if endDate eventInfo \<noteq> [] then endDate eventInfo else startDate eventInfo),
      category = category eventInfo,
      scouts = [], adults = []\<rparr>"

definition addSignup :: "eventsMap \<Rightarrow> signup \<Rightarrow> eventsMap" where
  \<comment> \<open>the body of \<^verbatim>\<open>sheetData.rows.forEach\<close>, after the fields of the row are extracted\<close>
  "addSignup m eventInfo =
     (if validSignup eventInfo then
        (let m1 = (if map_of m (eventKey eventInfo) = None
                   then m @ [(eventKey eventInfo, newEvent eventInfo)] else m);
             personName = trim (scoutName eventInfo)
         in if personName \<noteq> []
            then modifyAt (eventKey eventInfo) (addPerson (isAdult eventInfo) personName) m1
            else m1)
      else m)"

definition eventsMapOf :: "signup list \<Rightarrow> eventsMap" where
  \<comment> \<open>\<^verbatim>\<open>eventsMap\<close> after the loop, for the signups extracted from the rows in order\<close>
  "eventsMapOf signups = foldl addSignup [] signups"

definition convertSheetToEvents :: "sheetData \<Rightarrow> event list" where
  "convertSheetToEvents sd =
     map snd (eventsMapOf (map (\<lambda>row. extractEventFromRow row (columns sd)) (rows sd)))"

text \<open>
  Reference notions for the aggregator: the elements of a list in the order of their
  first occurrence, and the person names (trimmed, not empty) that the valid signups with
  a given key and adult flag contribute, in the order of the signups.
\<close>

definition firstSeen :: "'a list \<Rightarrow> 'a list" where
  "firstSeen xs = rev (remdups (rev xs))"

definition personNames :: "bool \<Rightarrow> string \<Rightarrow> signup list \<Rightarrow> string list" where
  "personNames adult k signups =
     filter (\<lambda>p. p \<noteq> [])
       (map (\<lambda>s. trim (scoutName s))
         (filter (\<lambda>s. validSignup s \<and> eventKey s = k \<and> isAdult s = adult) signups))"

text \<open>What holds of \<^verbatim>\<open>eventsMap\<close> after the signups \<open>ss\<close> are processed.\<close>

definition aggInv :: "signup list \<Rightarrow> eventsMap \<Rightarrow> bool" where
  "aggInv ss m \<longleftrightarrow>
     map fst m = firstSeen (map eventKey (filter validSignup ss)) \<and>
     (\<forall>(k, e) \<in> set m. scouts e = firstSeen (personNames False k ss) \<and>
                        adults e = firstSeen (personNames True k ss))"

section \<open>Temporal classifier\<close>

text \<open>
  The \<^verbatim>\<open>Date\<close> object belongs to the platform. Its constructor is the parameter
  \<open>parseDate\<close>, giving the time value of a date string or \<open>None\<close> for an invalid date;
  \<^verbatim>\<open>setHours(0, 0, 0, 0)\<close> is the parameter \<open>startOfDay\<close>, giving the local midnight of
  a time value (\<open>None\<close> when that leaves the range of time values); \<open>today\<close> is
  the midnight of the current day. A comparison with an invalid date is false.
\<close>

definition comparisonDate :: "event \<Rightarrow> string" where
  \<comment> \<open>\<^verbatim>\<open>event.endDate || event.startDate\<close>\<close>
  "comparisonDate e = (if endDate e \<noteq> [] then endDate e else startDate e)"

definition eventBeforeToday :: "(string \<Rightarrow> int option) \<Rightarrow> (int \<Rightarrow> int option) \<Rightarrow> int \<Rightarrow> event \<Rightarrow> bool" where
  "eventBeforeToday parseDate startOfDay today e =
     (case parseDate (comparisonDate e) of
        None \<Rightarrow> False
      | Some t \<Rightarrow> (case startOfDay t of None \<Rightarrow> False | Some eventDate \<Rightarrow> eventDate < today))"

definition classifyEvents ::
  "(string \<Rightarrow> int option) \<Rightarrow> (int \<Rightarrow> int option) \<Rightarrow> int \<Rightarrow> event list \<Rightarrow> event list \<times> event list" where
  \<comment> \<open>the loop of \<^verbatim>\<open>initializeApp\<close> over \<^verbatim>\<open>allEvents\<close>: (futureEvents, pastEvents)\<close>
  "classifyEvents parseDate startOfDay today allEvents =
     foldl (\<lambda>(future, past) e.
              if eventBeforeToday parseDate startOfDay today e then (future, past @ [e])
              else (future @ [e], past))
           ([], []) allEvents"

definition isEventPast :: "(string \<Rightarrow> int option) \<Rightarrow> int \<Rightarrow> string \<Rightarrow> bool" where
  "isEventPast parseDate today endDate' =
     (if endDate' = [] then False
      else (case parseDate endDate' of None \<Rightarrow> False | Some eventDate \<Rightarrow> eventDate < today))"

text \<open>
  The platform's two date functions, as far as the program uses them. The constructor
  reads a date of the form \<open>YYYY-MM-DD\<close>, the form the extractor writes, as midnight UTC
  of that day (ECMAScript reads date-only forms as UTC). \<^verbatim>\<open>setHours(0, 0, 0, 0)\<close>
  moves a time value to the midnight of its day in local time; \<open>startOfDayIn offset\<close>
  is that function in a zone whose local time is UTC plus \<open>offset\<close> milliseconds.
\<close>

definition msPerDay :: int where
  "msPerDay = 86400000"

definition startOfDayIn :: "int \<Rightarrow> int \<Rightarrow> int option" where
  "startOfDayIn offset t = Some ((t + offset) div msPerDay * msPerDay - offset)"

text \<open>
  The number of the day of a calendar date, counted from 1970-01-01 (the day number of
  ECMAScript's \<^verbatim>\<open>MakeDay\<close>, for months 1 to 12 of the Gregorian calendar); the time
  value of midnight UTC of that day is the day number times \<open>msPerDay\<close>.
\<close>

definition daysFromCivil :: "int \<Rightarrow> int \<Rightarrow> int \<Rightarrow> int" where
  "daysFromCivil y m d =
     (let y' = (if m \<le> 2 then y - 1 else y);
          era = y' div 400;
          yoe = y' - era * 400;
          doy = (153 * (if 2 < m then m - 3 else m + 9) + 2) div 5 + d - 1;
          doe = yoe * 365 + yoe div 4 - yoe div 100 + doy
      in era * 146097 + doe - 719468)"

section \<open>Identity extractor\<close>

record identity =
  fullName :: string
  firstName :: string
  lastName :: string
  normalized :: string

function splitWs :: "string \<Rightarrow> string list" where
  \<comment> \<open>\<^verbatim>\<open>name.split(/\s+/)\<close>\<close>
  "splitWs s =
     (let tok = takeWhile (\<lambda>c. \<not> isSpace c) s;
          rest = dropWhile (\<lambda>c. \<not> isSpace c) s
      in if rest = [] then [tok] else tok # splitWs (dropWhile isSpace rest))"
  by pat_completeness auto
termination
proof (relation "measure length")
  show "wf (measure length)" by simp
next
  fix s tok rest :: string
  assume r: "rest = dropWhile (\<lambda>c. \<not> isSpace c) s" and ne: "rest \<noteq> []"
  have "isSpace (hd rest)"
    using r ne hd_dropWhile[of "\<lambda>c. \<not> isSpace c" s] by auto
  then have "length (dropWhile isSpace rest) < length rest"
    using ne by (cases rest) (auto simp: le_imp_less_Suc length_dropWhile_le)
  moreover have "length rest \<le> length s"
    using r by (simp add: length_dropWhile_le)
  ultimately show "(dropWhile isSpace rest, s) \<in> measure length" by simp
qed

declare splitWs.simps [simp del]

fun joinSpace :: "string list \<Rightarrow> string" where
  \<comment> \<open>\<^verbatim>\<open>parts.join(' ')\<close>\<close>
  "joinSpace [] = []"
| "joinSpace [p] = p"
| "joinSpace (p # q # ps) = p @ '' '' @ joinSpace (q # ps)"

type_synonym scoutMap = "(string \<times> identity) list"

definition addScout :: "scoutMap \<Rightarrow> string \<Rightarrow> scoutMap" where
  \<comment> \<open>the body of \<^verbatim>\<open>event.scouts.forEach\<close>; the set \<^verbatim>\<open>scoutSet\<close> is written and never read\<close>
  "addScout m scoutName' =
     (let name = trim scoutName'
      in if name \<noteq> [] then
           (let normalized' = toLowerCase name
            in if map_of m normalized' = None then
                 (let parts = splitWs name
                  in m @ [(normalized',
                           \<lparr>fullName = name,
                            firstName = (case parts of [] \<Rightarrow> [] | p # ps \<Rightarrow> p),
                            lastName = joinSpace (drop 1 parts),
                            normalized = normalized'\<rparr>)])
               else m)
         else m)"

definition addEventScouts :: "scoutMap \<Rightarrow> event \<Rightarrow> scoutMap" where
  "addEventScouts m e = foldl addScout m (scouts e)"

definition extractUniqueScouts :: "event list \<Rightarrow> event list \<Rightarrow> identity list" where
  "extractUniqueScouts futureEvents' pastEvents' =
     map snd (foldl addEventScouts (foldl addEventScouts [] futureEvents') pastEvents')"

text \<open>
  Reference notions for the identity extractor: the trimmed, non-empty names among the
  scout entries, the identity record built from a name, and what holds of
  \<^verbatim>\<open>scoutMap\<close> after the entries \<open>ns\<close> are processed.
\<close>

definition cleanNames :: "string list \<Rightarrow> string list" where
  "cleanNames ns = filter (\<lambda>n. n \<noteq> []) (map trim ns)"

definition identityOf :: "string \<Rightarrow> identity" where
  "identityOf name =
     \<lparr>fullName = name,
      firstName = (case splitWs name of [] \<Rightarrow> [] | p # ps \<Rightarrow> p),
      lastName = joinSpace (drop 1 (splitWs name)),
      normalized = toLowerCase name\<rparr>"

definition scoutInv :: "string list \<Rightarrow> scoutMap \<Rightarrow> bool" where
  "scoutInv ns m \<longleftrightarrow>
     map fst m = firstSeen (map toLowerCase (cleanNames ns)) \<and>
     (\<forall>(k, r) \<in> set m. \<exists>name. find (\<lambda>n. toLowerCase n = k) (cleanNames ns) = Some name \<and>
                                r = identityOf name)"

section \<open>Fuzzy matcher\<close>

definition scoutScore :: "string \<Rightarrow> identity \<Rightarrow> rat" where
  \<comment> \<open>the value of \<^verbatim>\<open>score\<close> at the end of the loop body of \<^verbatim>\<open>searchScouts\<close>\<close>
  "scoutScore searchTerm scout =
     (let score0 = 0;
          fullNameScore = calculateSimilarity (fullName scout) searchTerm;
          score1 = (if fullNameScore > double (3 / 10) then max score0 fullNameScore else score0);
          firstNameScore = calculateSimilarity (firstName scout) searchTerm;
          score2 = (if firstNameScore > double (3 / 10) then max score1 (double (firstNameScore * double (9 / 10))) else score1);
          lastNameScore = calculateSimilarity (lastName scout) searchTerm;
          score3 = (if lastNameScore > double (3 / 10) then max score2 (double (lastNameScore * double (9 / 10))) else score2);
          score4 = (if str_includes (toLowerCase (fullName scout)) searchTerm \<or>
                       str_includes (toLowerCase (firstName scout)) searchTerm \<or>
                       str_includes (toLowerCase (lastName scout)) searchTerm
                    then max score3 (double (7 / 10)) else score3)
      in score4)"

text \<open>
  \<^verbatim>\<open>Array.prototype.sort\<close> with a comparison function is a stable sort (ECMAScript 2019):
  of two elements the comparison holds equal, the one that came first stays first. It is
  modelled by insertion from the right, where an element goes in front of the first
  element it does not have to follow.
\<close>

fun insertBy :: "('a \<Rightarrow> 'a \<Rightarrow> rat) \<Rightarrow> 'a \<Rightarrow> 'a list \<Rightarrow> 'a list" where
  "insertBy cmp x [] = [x]"
| "insertBy cmp x (y # ys) = (if cmp x y \<le> 0 then x # y # ys else y # insertBy cmp x ys)"

definition sortBy :: "('a \<Rightarrow> 'a \<Rightarrow> rat) \<Rightarrow> 'a list \<Rightarrow> 'a list" where
  "sortBy cmp xs = foldr (insertBy cmp) xs []"

definition scoredResults :: "string \<Rightarrow> identity list \<Rightarrow> (identity \<times> rat) list" where
  \<comment> \<open>\<^verbatim>\<open>results\<close> after the loop over \<^verbatim>\<open>allScouts\<close>\<close>
  "scoredResults searchTerm allScouts' =
     foldl (\<lambda>results scout.
              let score = scoutScore searchTerm scout
              in if score > double (3 / 10) then results @ [(scout, score)] else results)
           [] allScouts'"

definition searchScouts :: "string \<Rightarrow> identity list \<Rightarrow> identity list" where
  "searchScouts query allScouts' =
     (if query = [] \<or> trim query = [] then []
      else if allScouts' = [] then []
      else
        (let searchTerm = toLowerCase (trim query);
             results = scoredResults searchTerm allScouts'
         in map fst (sortBy (\<lambda>a b. double (snd b - snd a)) results)))"

text \<open>
  The score in the words of the specification: the candidates that contribute are the
  full-name similarity, the first-name and the last-name similarity times 0.9, each only
  if the similarity itself exceeds 0.3, and 0.7 if the query occurs in one of the three
  names; the score is the greatest of them, and 0 if there is none.
\<close>

definition specCandidates :: "string \<Rightarrow> identity \<Rightarrow> rat list" where
  "specCandidates query scout =
     (if calculateSimilarity (fullName scout) query > double (3 / 10)
      then [calculateSimilarity (fullName scout) query] else []) @
     (if calculateSimilarity (firstName scout) query > double (3 / 10)
      then [double (calculateSimilarity (firstName scout) query * double (9 / 10))] else []) @
     (if calculateSimilarity (lastName scout) query > double (3 / 10)
      then [double (calculateSimilarity (lastName scout) query * double (9 / 10))] else []) @
     (if str_includes (toLowerCase (fullName scout)) query \<or>
         str_includes (toLowerCase (firstName scout)) query \<or>
         str_includes (toLowerCase (lastName scout)) query
      then [double (7 / 10)] else [])"

definition specScore :: "string \<Rightarrow> identity \<Rightarrow> rat" where
  "specScore query scout = Max (set (0 # specCandidates query scout))"

section \<open>Ingestion\<close>

text \<open>
  The state the application keeps between ingestion passes, and the pass itself: what
  \<^verbatim>\<open>initializeApp\<close> and the refresh timer do with a fetched sheet.
\<close>

record appState =
  futureEvents :: "event list"
  pastEvents :: "event list"
  allScouts :: "identity list"
  selectedScout :: "string option"

definition ingest ::
  "(string \<Rightarrow> int option) \<Rightarrow> (int \<Rightarrow> int option) \<Rightarrow> int \<Rightarrow> sheetData \<Rightarrow> appState \<Rightarrow> appState" where
  "ingest parseDate startOfDay today sd st =
     (let allEvents = convertSheetToEvents sd;
          (future, past) = classifyEvents parseDate startOfDay today allEvents
      in st\<lparr>futureEvents := future, pastEvents := past,
            allScouts := extractUniqueScouts future past\<rparr>)"

section \<open>Example data\<close>

text \<open>The column labels of the sheet, as the comments of \<^verbatim>\<open>extractEventFromRow\<close> give
  them (columns B, C, D and G), and rows of that sheet.\<close>

definition sheetColumns :: "string list" where
  "sheetColumns = [''Timestamp'', ''Which event did you signup for?'', ''First Name'',
     ''Last Name'', ''Email'', ''Phone'', ''Patrol Leader - Patrol?'']"

definition sheetRow :: "string \<Rightarrow> string \<Rightarrow> string \<Rightarrow> string \<Rightarrow> row" where
  "sheetRow ev fname lname patrol =
     [(''Timestamp'', ''11/1/2025 10:00:00''),
      (''Which event did you signup for?'', ev),
      (''First Name'', fname), (''Last Name'', lname),
      (''Patrol Leader - Patrol?'', patrol)]"

definition leafRow :: row where
  "leafRow = sheetRow ''2025 - 11/29 - Leaf Center Service Project (2 pm - 4 pm)''
               ''Jane'' ''Doe'' ''Scout''"

definition campRow :: row where
  "campRow = sheetRow ''2025 - 1/5 - Summer Camp Fundraiser'' ''Jon'' ''Smith'' ''Adult leader''"

definition janeSheet :: sheetData where
  \<comment> \<open>two rows for the same event and date, the names differing in case and white space\<close>
  "janeSheet =
     \<lparr>columns = sheetColumns,
      rows = [sheetRow ''2025 - 11/29 - Leaf Center Service Project'' ''Jane'' ''Doe'' ''Scout'',
              sheetRow ''2025 - 11/29 - Leaf Center Service Project'' ''jane'' ''doe '' ''Scout'']\<rparr>"

definition knownDates :: "string \<Rightarrow> int option" where
  \<comment> \<open>a date constructor that reads two dates (as milliseconds, midnight UTC) and finds
      every other string invalid\<close>
  "knownDates s =
     (if s = ''2025-11-29'' then Some 1764374400000
      else if s = ''2025-12-13'' then Some 1765584000000
      else None)"

definition leafEvent :: event where
  "leafEvent = \<lparr>eventName = ''Leaf Center Service Project'', startDate = ''2025-11-29'',
                endDate = ''2025-11-29'', category = ''Service Project'',
                scouts = [''Jane Doe''], adults = []\<rparr>"

definition eagleEvent :: event where
  "eagleEvent = \<lparr>eventName = ''Patrick Zhang Eagle Project Day #3'', startDate = ''2025-12-13'',
                 endDate = ''2025-12-13'', category = ''Eagle Project'',
                 scouts = [''Jon Smith''], adults = [''Ann Lee'']\<rparr>"

definition undatedEvent :: event where
  "undatedEvent = \<lparr>eventName = ''Court of Honor'', startDate = ''soon'', endDate = [],
                   category = ''Other'', scouts = [''John Smyth''], adults = []\<rparr>"

definition rangeEvent :: event where
  \<comment> \<open>started in the past, ends in the future\<close>
  "rangeEvent = \<lparr>eventName = ''Winter Camp'', startDate = ''2025-11-29'',
                 endDate = ''2025-12-13'', category = ''Camping'',
                 scouts = [''Jon Stone''], adults = []\<rparr>"

definition jonSmith :: identity where
  "jonSmith = \<lparr>fullName = ''Jon Smith'', firstName = ''Jon'', lastName = ''Smith'',
               normalized = ''jon smith''\<rparr>"

definition johnSmyth :: identity where
  "johnSmyth = \<lparr>fullName = ''John Smyth'', firstName = ''John'', lastName = ''Smyth'',
                normalized = ''john smyth''\<rparr>"

definition jonStone :: identity where
  "jonStone = \<lparr>fullName = ''Jon Stone'', firstName = ''Jon'', lastName = ''Stone'',
               normalized = ''jon stone''\<rparr>"

definition jonDoe :: identity where
  "jonDoe = \<lparr>fullName = ''Jon Doe'', firstName = ''Jon'', lastName = ''Doe'',
             normalized = ''jon doe''\<rparr>"

definition jason :: identity where
  "jason = \<lparr>fullName = ''Jason'', firstName = ''Jason'', lastName = [],
            normalized = ''jason''\<rparr>"

definition janDoe :: identity where
  "janDoe = \<lparr>fullName = ''Jan Doe'', firstName = ''Jan'', lastName = ''Doe'',
             normalized = ''jan doe''\<rparr>"

definition blankNameEvent :: event where
  "blankNameEvent = \<lparr>eventName = ''Court of Honor'', startDate = ''2025-12-13'',
                     endDate = ''2025-12-13'', category = ''Other'',
                     scouts = ['' ''], adults = []\<rparr>"

section \<open>Properties of the string functions\<close>

lemma startsWith_iff: "startsWith s t \<longleftrightarrow> (\<exists>ss. s = t @ ss)"
  by (induction s t rule: startsWith.induct) auto

lemma str_includes_iff: "str_includes s t \<longleftrightarrow> (\<exists>ps ss. s = ps @ t @ ss)"
proof (induction s)
  case Nil
  then show ?case by simp
next
  case (Cons d s)
  show ?case
  proof
    assume "str_includes (d # s) t"
    then consider "startsWith (d # s) t" | "str_includes s t" by auto
    then show "\<exists>ps ss. d # s = ps @ t @ ss"
    proof cases
      case 1
      then obtain ss where "d # s = t @ ss" by (auto simp: startsWith_iff)
      then have "d # s = [] @ t @ ss" by simp
      then show ?thesis by blast
    next
      case 2
      then obtain ps ss where "s = ps @ t @ ss" using Cons.IH by blast
      then have "d # s = (d # ps) @ t @ ss" by simp
      then show ?thesis by blast
    qed
  next
    assume "\<exists>ps ss. d # s = ps @ t @ ss"
    then obtain ps ss where e: "d # s = ps @ t @ ss" by blast
    show "str_includes (d # s) t"
    proof (cases ps)
      case Nil
      with e have "startsWith (d # s) t" by (auto simp: startsWith_iff)
      then show ?thesis by simp
    next
      case (Cons p ps')
      with e have "s = ps' @ t @ ss" by simp
      then have "str_includes s t" using Cons.IH by blast
      then show ?thesis by simp
    qed
  qed
qed

lemma trim_Nil: "trim [] = []"
  by (simp add: trim_def)

lemma trim_inside: "\<exists>ps ss. q = ps @ trim q @ ss"
proof -
  let ?d = "dropWhile isSpace q"
  have "rev (takeWhile isSpace (rev ?d) @ dropWhile isSpace (rev ?d)) = rev (rev ?d)"
    by (simp only: takeWhile_dropWhile_id)
  then have "trim q @ rev (takeWhile isSpace (rev ?d)) = ?d"
    by (simp only: rev_append rev_rev_ident trim_def)
  moreover have "q = takeWhile isSpace q @ ?d" by simp
  ultimately have "q = takeWhile isSpace q @ trim q @ rev (takeWhile isSpace (rev ?d))"
    by simp
  then show ?thesis by blast
qed

lemma includes_trimmed_query:
  assumes "str_includes name (toLowerCase q)"
  shows "str_includes name (toLowerCase (trim q))"
proof -
  obtain ps ss where q: "q = ps @ trim q @ ss" using trim_inside by blast
  obtain us vs where n: "name = us @ toLowerCase q @ vs"
    using assms by (auto simp: str_includes_iff)
  have "toLowerCase q = toLowerCase ps @ toLowerCase (trim q) @ toLowerCase ss"
    by (subst q) (simp add: toLowerCase_def)
  with n have "name = (us @ toLowerCase ps) @ toLowerCase (trim q) @ (toLowerCase ss @ vs)"
    by simp
  then show ?thesis unfolding str_includes_iff by blast
qed

lemma trim_ends:
  assumes "trim s \<noteq> []"
  shows "\<not> isSpace (hd (trim s)) \<and> \<not> isSpace (last (trim s))"
proof -
  let ?d = "dropWhile isSpace s"
  let ?e = "dropWhile isSpace (rev ?d)"
  have t: "trim s = rev ?e" by (simp add: trim_def)
  have e: "?e \<noteq> []" using assms t by simp
  have d: "?d \<noteq> []"
    using e by (metis dropWhile.simps(1) rev.simps(1))
  have "last (trim s) = hd ?e" unfolding t using e by (simp add: last_rev)
  moreover have "\<not> isSpace (hd ?e)" using e hd_dropWhile[of isSpace "rev ?d"] by blast
  moreover have "hd (trim s) = hd ?d"
  proof -
    have "rev (takeWhile isSpace (rev ?d) @ ?e) = rev (rev ?d)"
      by (simp only: takeWhile_dropWhile_id)
    then have "trim s @ rev (takeWhile isSpace (rev ?d)) = ?d"
      by (simp only: rev_append rev_rev_ident trim_def)
    then have "hd ?d = hd (trim s @ rev (takeWhile isSpace (rev ?d)))" by simp
    also have "\<dots> = hd (trim s)" using assms by (rule hd_append2)
    finally show ?thesis by simp
  qed
  moreover have "\<not> isSpace (hd ?d)" using d hd_dropWhile[of isSpace s] by blast
  ultimately show ?thesis by simp
qed

lemma of_char_lowerChar:
  "(of_char (lowerChar c) :: nat) =
     (let n = of_char c in
      if (65 \<le> n \<and> n \<le> 90) \<or> (192 \<le> n \<and> n \<le> 214) \<or> (216 \<le> n \<and> n \<le> 222)
      then n + 32 else n)"
  by (auto simp: lowerChar_def Let_def of_char_of)

lemma isSpace_lowerChar: "isSpace (lowerChar c) = isSpace c"
  unfolding isSpace_def of_char_lowerChar Let_def by auto

lemma lowerChar_idem: "lowerChar (lowerChar c) = lowerChar c"
proof -
  have "(of_char (lowerChar (lowerChar c)) :: nat) = of_char (lowerChar c)"
    unfolding of_char_lowerChar[of "lowerChar c"] unfolding of_char_lowerChar[of c] Let_def
    by auto
  then show ?thesis by (simp only: of_char_eq_iff)
qed

lemma toLowerCase_idem: "toLowerCase (toLowerCase s) = toLowerCase s"
  by (simp add: toLowerCase_def lowerChar_idem)

lemma dropWhile_isSpace_lower:
  "dropWhile isSpace (toLowerCase s) = toLowerCase (dropWhile isSpace s)"
  by (induction s) (simp_all add: toLowerCase_def isSpace_lowerChar)

lemma toLowerCase_rev: "toLowerCase (rev s) = rev (toLowerCase s)"
  by (simp add: toLowerCase_def rev_map)

lemma trim_toLowerCase: "trim (toLowerCase s) = toLowerCase (trim s)"
  by (simp add: trim_def dropWhile_isSpace_lower toLowerCase_rev[symmetric])

lemma dropWhile_hd: "xs \<noteq> [] \<Longrightarrow> \<not> P (hd xs) \<Longrightarrow> dropWhile P xs = xs"
  by (cases xs) auto

lemma trim_idem: "trim (trim s) = trim s"
proof (cases "trim s = []")
  case True
  then show ?thesis by (simp add: trim_Nil)
next
  case False
  let ?t = "trim s"
  have ends: "\<not> isSpace (hd ?t)" "\<not> isSpace (last ?t)"
    using trim_ends[OF False] by simp_all
  have front: "dropWhile isSpace ?t = ?t"
    using False ends(1) by (rule dropWhile_hd)
  have "\<not> isSpace (hd (rev ?t))" using False ends(2) by (simp add: hd_rev)
  then have rear: "dropWhile isSpace (rev ?t) = rev ?t"
    using False by (intro dropWhile_hd) simp_all
  have "trim ?t = rev (dropWhile isSpace (rev (dropWhile isSpace ?t)))"
    by (simp only: trim_def)
  also have "\<dots> = rev (rev ?t)" by (simp only: front rear)
  finally show ?thesis by simp
qed

text \<open>The search term of \<^verbatim>\<open>searchScouts\<close> and the query have the same similarity to
  every name.\<close>

lemma calculateSimilarity_searchTerm:
  assumes "trim q \<noteq> []"
  shows "calculateSimilarity name (toLowerCase (trim q)) = calculateSimilarity name q"
proof -
  have q: "q \<noteq> []" using assms by (auto simp: trim_Nil)
  have t: "toLowerCase (trim q) \<noteq> []" using assms by (simp add: toLowerCase_def)
  have "trim (toLowerCase (toLowerCase (trim q))) = trim (toLowerCase q)"
    by (simp add: toLowerCase_idem trim_toLowerCase trim_idem)
  then show ?thesis
    using q t by (simp add: calculateSimilarity_def)
qed

section \<open>Rounding to a double keeps sign and the unit interval\<close>

lemma expo_bounds:
  assumes "0 < x"
  shows "2 powi expo x \<le> x \<and> x < 2 powi (expo x + 1)"
proof -
  obtain a b where q: "quotient_of x = (a, b)" by (cases "quotient_of x")
  then have b: "0 < b" and x: "x = of_int a / of_int b"
    using quotient_of_denom_pos quotient_of_div by blast+
  have a: "0 < a" using assms b x by (simp add: zero_less_divide_iff)
  define la where "la = bitlen a"
  define lb where "lb = bitlen b"
  have la1: "1 \<le> la" using a by (auto simp: la_def bitlen_alt_def)
  have lb1: "1 \<le> lb" using b by (auto simp: lb_def bitlen_alt_def)
  have ba: "(2::int) ^ nat (la - 1) \<le> a" "a < 2 ^ nat la"
    using bitlen_bounds[OF a] by (simp_all add: la_def)
  have bb: "(2::int) ^ nat (lb - 1) \<le> b" "b < 2 ^ nat lb"
    using bitlen_bounds[OF b] by (simp_all add: lb_def)
  have "rat_of_int (2 ^ nat (la - 1)) \<le> rat_of_int a" using ba(1) by (simp only: of_int_le_iff)
  then have ra1: "(2::rat) powi (la - 1) \<le> of_int a"
    using la1 by (simp add: power_int_nonneg_exp)
  have "rat_of_int a < rat_of_int (2 ^ nat la)" using ba(2) by (simp only: of_int_less_iff)
  then have ra2: "of_int a < (2::rat) powi la"
    using la1 by (simp add: power_int_nonneg_exp)
  have "rat_of_int (2 ^ nat (lb - 1)) \<le> rat_of_int b" using bb(1) by (simp only: of_int_le_iff)
  then have rb1: "(2::rat) powi (lb - 1) \<le> of_int b"
    using lb1 by (simp add: power_int_nonneg_exp)
  have "rat_of_int b < rat_of_int (2 ^ nat lb)" using bb(2) by (simp only: of_int_less_iff)
  then have rb2: "of_int b < (2::rat) powi lb"
    using lb1 by (simp add: power_int_nonneg_exp)
  have pb: "0 < rat_of_int b" using b by simp
  have pa: "0 < rat_of_int a" using a by simp
  have p2: "0 < (2::rat) powi k" for k by simp
  have "(2::rat) powi (la - lb - 1) = 2 powi (la - 1) / 2 powi lb"
    by (simp add: power_int_diff[symmetric] algebra_simps)
  also have "\<dots> \<le> of_int a / 2 powi lb"
    using ra1 p2[of lb] by (simp add: divide_right_mono)
  also have "\<dots> < of_int a / of_int b"
    using rb2 pa pb by (simp add: divide_strict_left_mono)
  finally have lo: "(2::rat) powi (la - lb - 1) < x" unfolding x .
  have "x = of_int a / of_int b" by (rule x)
  also have "\<dots> < 2 powi la / of_int b"
    using ra2 pb by (simp add: divide_strict_right_mono)
  also have "\<dots> \<le> 2 powi la / 2 powi (lb - 1)"
    using rb1 p2[of "lb - 1"] p2[of la] pb by (simp add: frac_le)
  also have "\<dots> = (2::rat) powi (la - lb + 1)"
    by (simp add: power_int_diff[symmetric] algebra_simps)
  finally have hi: "x < (2::rat) powi (la - lb + 1)" .
  show ?thesis
  proof (cases "2 powi (la - lb) \<le> x")
    case True
    then have "expo x = la - lb" by (simp add: expo_def q la_def lb_def)
    then show ?thesis using True hi by simp
  next
    case False
    then have "expo x = la - lb - 1" by (simp add: expo_def q la_def lb_def)
    then show ?thesis using False lo by simp
  qed
qed

lemma roundHalfEven_bounds: "\<lfloor>q\<rfloor> \<le> roundHalfEven q \<and> roundHalfEven q \<le> \<lfloor>q\<rfloor> + 1"
  by (simp add: roundHalfEven_def Let_def)

lemma double_bracket:
  assumes "0 < x"
  shows "2 powi expo x \<le> double x \<and> double x \<le> 2 powi (expo x + 1)"
proof -
  define e where "e = expo x"
  define u where "u = (2::rat) powi (e - 52)"
  define q where "q = x / u"
  define n where "n = roundHalfEven q"
  have u: "0 < u" by (simp add: u_def)
  have d: "double x = of_int n * u"
    using assms by (simp add: double_def Let_def n_def q_def u_def e_def)
  have xe: "2 powi e \<le> x" "x < 2 powi (e + 1)"
    using expo_bounds[OF assms] by (simp_all add: e_def)
  have e1: "(2::rat) powi e = 2 ^ 52 * u"
    by (simp add: u_def power_int_diff)
  have e2: "(2::rat) powi (e + 1) = 2 ^ 53 * u"
    by (simp add: u_def power_int_diff power_int_add)
  have "2 ^ 52 \<le> q" using xe(1) u unfolding e1 q_def by (simp add: pos_le_divide_eq)
  then have "rat_of_int (2 ^ 52) \<le> q" by simp
  then have f1: "2 ^ 52 \<le> \<lfloor>q\<rfloor>" by (simp only: le_floor_iff)
  have "q < 2 ^ 53" using xe(2) u unfolding e2 q_def by (simp add: pos_divide_less_eq)
  then have "q < rat_of_int (2 ^ 53)" by simp
  then have f2: "\<lfloor>q\<rfloor> < 2 ^ 53" by (simp only: floor_less_iff)
  have n1: "2 ^ 52 \<le> n" using f1 roundHalfEven_bounds[of q] unfolding n_def by linarith
  have n2: "n \<le> 2 ^ 53" using f2 roundHalfEven_bounds[of q] unfolding n_def by linarith
  have "rat_of_int (2 ^ 52) \<le> of_int n" using n1 by (simp only: of_int_le_iff)
  then have "2 ^ 52 * u \<le> of_int n * u" using u by simp
  moreover have "rat_of_int n \<le> of_int (2 ^ 53)" using n2 by (simp only: of_int_le_iff)
  then have "of_int n * u \<le> 2 ^ 53 * u" using u by simp
  ultimately show ?thesis unfolding d e1[symmetric] e2[symmetric] e_def by simp
qed

lemma double_0: "double 0 = 0"
  by (simp add: double_def)

lemma double_pos: "0 < x \<Longrightarrow> 0 < double x"
proof -
  assume x: "0 < x"
  have "(0::rat) < 2 powi expo x" by simp
  also have "\<dots> \<le> double x" using double_bracket[OF x] by simp
  finally show ?thesis .
qed

lemma double_minus: "double (- x) = - double x"
  by (simp add: double_def Let_def)

lemma double_sign: "double x \<le> 0 \<longleftrightarrow> x \<le> 0"
proof (cases "0 < x")
  case True
  then show ?thesis using double_pos[OF True] by simp
next
  case False
  show ?thesis
  proof (cases "x = 0")
    case True
    then show ?thesis by (simp add: double_0)
  next
    case nz: False
    then have "0 < - x" using False by simp
    then have "0 < double (- x)" by (rule double_pos)
    then show ?thesis using False by (simp add: double_minus)
  qed
qed

lemma double_1: "double 1 = 1"
  by code_simp

lemma double_le_1:
  assumes "0 \<le> x" "x \<le> 1"
  shows "0 \<le> double x \<and> double x \<le> 1"
proof (cases "x = 0")
  case True
  then show ?thesis by (simp add: double_0)
next
  case False
  then have pos: "0 < x" using assms(1) by simp
  show ?thesis
  proof (cases "x = 1")
    case True
    then show ?thesis by (simp add: double_1)
  next
    case ne: False
    then have lt: "x < 1" using assms(2) by simp
    have "(2::rat) powi expo x \<le> x" using expo_bounds[OF pos] by simp
    then have "(2::rat) powi expo x < 2 powi 0" using lt by simp
    then have "expo x < 0" by (rule power_int_le_imp_less_exp[rotated]) simp_all
    then have "(2::rat) powi (expo x + 1) \<le> 2 powi 0"
      by (intro power_int_increasing) simp_all
    then show ?thesis using double_bracket[OF pos] double_pos[OF pos] by simp
  qed
qed

lemma double_diff_sign: "double (b - a) \<le> 0 \<longleftrightarrow> b \<le> a"
  by (simp add: double_sign)

section \<open>The matrix computes the edit distance\<close>

lemma ed_Nil2: "ed xs [] = length xs"
  by (cases xs) simp_all

lemma ed_sym: "ed xs ys = ed ys xs"
  by (induction xs ys rule: ed.induct)
     (simp_all add: ed_Nil2 min.commute min.left_commute eq_commute)

lemma ed_le_max: "ed xs ys \<le> max (length xs) (length ys)"
  by (induction xs ys rule: ed.induct) (auto simp: min_le_iff_disj)

lemma pd_row0: "j \<le> length s2 \<Longrightarrow> pd s1 s2 0 j = j"
  by (simp add: pd_def)

lemma pd_col0: "i \<le> length s1 \<Longrightarrow> pd s1 s2 i 0 = i"
  by (simp add: pd_def ed_Nil2)

lemma pd_Suc:
  assumes "i < length s1" "j < length s2"
  shows "pd s1 s2 (Suc i) (Suc j) =
    min (min (pd s1 s2 i (Suc j) + 1) (pd s1 s2 (Suc i) j + 1))
        (pd s1 s2 i j + (if s1 ! i = s2 ! j then 0 else 1))"
  using assms by (simp add: pd_def take_Suc_conv_app_nth)

lemma fillRow_pd:
  assumes "0 < i" "i \<le> length s1"
    and "prev = map (pd s1 s2 (i - 1)) [0 ..< Suc (length s2)]"
  shows "0 < j \<Longrightarrow> j \<le> Suc (length s2) \<Longrightarrow> cur = map (pd s1 s2 i) [0 ..< j] \<Longrightarrow>
     fillRow s1 s2 prev i cur [j ..< Suc (length s2)] = map (pd s1 s2 i) [0 ..< Suc (length s2)]"
proof (induction "Suc (length s2) - j" arbitrary: j cur)
  case 0
  then show ?case by simp
next
  case (Suc n)
  then have jl: "j < Suc (length s2)" by simp
  obtain i' where i': "i = Suc i'" using assms(1) by (cases i) auto
  obtain j' where j': "j = Suc j'" using Suc.prems(1) by (cases j) auto
  have cv: "cellValue s1 s2 prev cur i j = pd s1 s2 i j"
    using jl assms i' j' Suc.prems
    by (simp add: cellValue_def pd_Suc nth_append del: upt_Suc)
  have "fillRow s1 s2 prev i cur [j ..< Suc (length s2)]
      = fillRow s1 s2 prev i (cur @ [pd s1 s2 i j]) [Suc j ..< Suc (length s2)]"
    using jl cv by (simp add: upt_conv_Cons del: upt_Suc)
  also have "\<dots> = map (pd s1 s2 i) [0 ..< Suc (length s2)]"
    using Suc.hyps(2) jl Suc.prems by (intro Suc.hyps(1)) auto
  finally show ?case .
qed

lemma nextRow_pd:
  assumes "0 < i" "i \<le> length s1"
    and "prev = map (pd s1 s2 (i - 1)) [0 ..< Suc (length s2)]"
  shows "nextRow s1 s2 prev i = map (pd s1 s2 i) [0 ..< Suc (length s2)]"
  unfolding nextRow_def
  using fillRow_pd[OF assms, of 1 "[i]"] assms(2) by (simp add: pd_col0)

lemma foldl_nextRow:
  "n \<le> length s1 \<Longrightarrow>
   foldl (nextRow s1 s2) (map (pd s1 s2 0) [0 ..< Suc (length s2)]) [1 ..< Suc n]
     = map (pd s1 s2 n) [0 ..< Suc (length s2)]"
proof (induction n)
  case 0
  then show ?case by simp
next
  case (Suc n)
  then show ?case
    using nextRow_pd[of "Suc n" s1 "map (pd s1 s2 n) [0 ..< Suc (length s2)]" s2]
    by (simp del: upt_Suc add: upt_Suc_append)
qed

lemma first_row: "[0 ..< Suc (length s2)] = map (pd s1 s2 0) [0 ..< Suc (length s2)]"
  by (rule nth_equalityI) (simp_all add: pd_row0 nth_append del: upt_Suc)

lemma levenshtein_ed: "levenshtein s1 s2 = ed (rev s1) (rev s2)"
proof -
  have "lastRow s1 s2 = map (pd s1 s2 (length s1)) [0 ..< Suc (length s2)]"
    unfolding lastRow_def by (subst first_row[of s2 s1]) (rule foldl_nextRow, simp)
  then show ?thesis
    by (simp add: levenshtein_def pd_def nth_append del: upt_Suc)
qed

lemma levenshtein_le_max: "levenshtein s1 s2 \<le> max (length s1) (length s2)"
  using ed_le_max[of "rev s1" "rev s2"] by (simp add: levenshtein_ed)

lemma ratio_bounds:
  assumes "d \<le> m" "0 < m"
  shows "0 \<le> double (1 - double (rat_of_nat d / rat_of_nat m)) \<and>
         double (1 - double (rat_of_nat d / rat_of_nat m)) \<le> 1"
proof -
  have "rat_of_nat d \<le> rat_of_nat m" using assms(1) by simp
  moreover have "0 < rat_of_nat m" using assms(2) by simp
  ultimately have "rat_of_nat d / rat_of_nat m \<le> 1" by (simp add: divide_le_eq_1)
  moreover have "0 \<le> rat_of_nat d / rat_of_nat m" by simp
  ultimately have q: "0 \<le> double (rat_of_nat d / rat_of_nat m) \<and>
                      double (rat_of_nat d / rat_of_nat m) \<le> 1"
    by (intro double_le_1)
  then have "0 \<le> 1 - double (rat_of_nat d / rat_of_nat m)"
    and "1 - double (rat_of_nat d / rat_of_nat m) \<le> 1" by simp_all
  then show ?thesis by (rule double_le_1)
qed

lemma double_literal_unit: "0 \<le> double (8 / 10) \<and> double (8 / 10) \<le> 1"
  by (rule double_le_1) simp_all

lemma calculateSimilarity_range:
  "0 \<le> calculateSimilarity a b \<and> calculateSimilarity a b \<le> 1"
proof -
  define s1 where "s1 = trim (toLowerCase a)"
  define s2 where "s2 = trim (toLowerCase b)"
  have r: "0 \<le> double (1 - double (rat_of_nat (levenshtein s1 s2) / rat_of_nat (max (length s1) (length s2)))) \<and>
        double (1 - double (rat_of_nat (levenshtein s1 s2) / rat_of_nat (max (length s1) (length s2)))) \<le> 1"
    if "s1 \<noteq> []"
    by (rule ratio_bounds[OF levenshtein_le_max]) (use that in \<open>simp add: less_max_iff_disj\<close>)
  show ?thesis
    unfolding calculateSimilarity_def Let_def s1_def[symmetric] s2_def[symmetric]
    using r double_literal_unit by (simp del: of_nat_max)
qed

section \<open>Similarity: bounds and symmetry\<close>

text \<open>
  C2, as the code has it. The similarity of any two strings lies between 0 and 1, a
  string that is not empty has similarity 1 with itself, and \<open>''x''\<close> against the empty
  string gives 0. The first line of \<^verbatim>\<open>calculateSimilarity\<close> returns 0 as soon as one
  argument is the empty string, so two empty strings have similarity 0.
\<close>

theorem calculateSimilarity_bounds:
  "0 \<le> calculateSimilarity a b \<and> calculateSimilarity a b \<le> 1 \<and>
   (a \<noteq> [] \<longrightarrow> calculateSimilarity a a = 1) \<and>
   calculateSimilarity [] [] = 0 \<and>
   calculateSimilarity ''x'' [] = 0"
  using calculateSimilarity_range[of a b] by (simp add: calculateSimilarity_def)

theorem calculateSimilarity_bounds_witness:
  "''Jane'' \<noteq> [] \<and> calculateSimilarity ''Jane'' ''Jane'' = 1 \<and>
   0 \<le> calculateSimilarity ''Jane'' ''Joan'' \<and> calculateSimilarity ''Jane'' ''Joan'' \<le> 1"
  using calculateSimilarity_bounds[of "''Jane''" "''Joan''"] by simp

text \<open>
  C2, as the specification states it, asks for similarity 1 of the empty string with
  itself. The code answers 0.
\<close>

theorem calculateSimilarity_empty_counterexample:
  "calculateSimilarity [] [] = 0 \<and> calculateSimilarity [] [] \<noteq> 1"
  by (simp add: calculateSimilarity_def)

text \<open>
  C10. \<^verbatim>\<open>calculateSimilarity\<close> is symmetric: exchanging the two strings leaves the
  result unchanged.
\<close>

theorem calculateSimilarity_symmetric:
  "calculateSimilarity a b = calculateSimilarity b a"
  unfolding calculateSimilarity_def Let_def
  by (auto simp: levenshtein_ed ed_sym[of "rev (trim (toLowerCase a))"] max.commute)

text \<open>
  Every string includes the empty string, so past the equality and inclusion tests both
  trimmed strings are non-empty: the two tests on a length of 0 that follow in
  \<^verbatim>\<open>calculateSimilarity\<close> are never true. A string of white space therefore has
  similarity 0.8 with any other non-empty string.
\<close>

lemma str_includes_Nil: "str_includes s []"
  by (induction s) simp_all

lemma calculateSimilarity_branches:
  "calculateSimilarity str1 str2 =
     (if str1 = [] \<or> str2 = [] then 0
      else if trim (toLowerCase str1) = trim (toLowerCase str2) then 1
      else if str_includes (trim (toLowerCase str1)) (trim (toLowerCase str2)) \<or>
              str_includes (trim (toLowerCase str2)) (trim (toLowerCase str1)) then double (8 / 10)
      else double (1 - double (of_nat (levenshtein (trim (toLowerCase str1)) (trim (toLowerCase str2)))
               / of_nat (max (length (trim (toLowerCase str1))) (length (trim (toLowerCase str2)))))))"
  using str_includes_Nil[of "trim (toLowerCase str1)"] str_includes_Nil[of "trim (toLowerCase str2)"]
  by (auto simp: calculateSimilarity_def Let_def simp del: of_nat_max)

lemma calculateSimilarity_blank: "calculateSimilarity ''x'' '' '' = double (8 / 10)"
  by code_simp

section \<open>Row normalizer: a blank label shifts the labels after it\<close>

text \<open>
  C3. The cell at index \<open>i\<close> of a row is to be stored under the label given at index
  \<open>i\<close>, or under \<open>ColumnN\<close> with \<open>N = i + 1\<close> where that label is blank. The code
  removes the blank labels from the list before it indexes it, so behind a blank label
  every cell is stored under the label of a later column: with a blank label followed by
  the labels \<open>Event\<close> and \<open>Name\<close>, the first cell goes to \<open>Event\<close> and not to
  \<open>Column1\<close>, the second to \<open>Name\<close> and not to \<open>Event\<close>.
\<close>

theorem parseSheetData_blank_label:
  "parseSheetData \<lparr>cols = [Some [], Some ''Event'', Some ''Name''],
                   raw_rows = [Some [Some ''t'', Some ''Camp'', Some ''Jane'']]\<rparr>
   = \<lparr>columns = [''Event'', ''Name''],
      rows = [[(''Event'', ''t''), (''Name'', ''Camp''), (''Column3'', ''Jane'')]]\<rparr>"
  by code_simp

section \<open>Event field extractor: the example row\<close>

lemma leaf_trim:
  "trim ''2025 - 11/29 - Leaf Center Service Project (2 pm - 4 pm)''
     = ''2025 - 11/29 - Leaf Center Service Project (2 pm - 4 pm)''"
  by code_simp

lemma leaf_date:
  "matchDate ''2025 - 11/29 - Leaf Center Service Project (2 pm - 4 pm)''
     = Some (''2025'', ''11'', ''29'')"
  by code_simp

lemma leaf_name:
  "trim (stripDatePrefix ''2025 - 11/29 - Leaf Center Service Project (2 pm - 4 pm)'')
     = ''Leaf Center Service Project (2 pm - 4 pm)''"
  by code_simp

lemma leaf_category:
  "categoryOf ''Leaf Center Service Project (2 pm - 4 pm)'' = ''Service Project''"
  by code_simp

lemma jane_doe: "trim ''Jane Doe'' = ''Jane Doe''"
  by code_simp

lemma scout_role: "str_includes (toLowerCase ''Scout'') ''adult'' = False"
  by code_simp

lemma pad_11_29: "padStart2 ''11'' = ''11''" "padStart2 ''29'' = ''29''"
  by code_simp+

lemma space_no_digit: "isSpace c \<Longrightarrow> \<not> isDigit c"
  by (auto simp: isSpace_def isDigit_def)

lemma dash_slash_chars:
  "\<not> isSpace (CHR ''-'')" "\<not> isDigit (CHR ''-'')" "\<not> isDigit (CHR ''/'')"
  by (simp_all add: isSpace_def isDigit_def)

lemma dropWhile_spaces:
  "list_all isSpace sp \<Longrightarrow> dropWhile isSpace (sp @ r) = dropWhile isSpace r"
  by (induction sp) simp_all

lemma takeDigits2_digits:
  assumes "d \<noteq> []" "length d \<le> 2" "list_all isDigit d"
    and "case r of [] \<Rightarrow> True | c # r' \<Rightarrow> \<not> isDigit c"
  shows "takeDigits2 (d @ r) = (d, r)"
proof -
  consider a where "d = [a]" | a b where "d = [a, b]"
    using assms(1,2) by (cases d; cases "tl d"; cases "tl (tl d)") auto
  then show ?thesis
  proof cases
    case 1
    then show ?thesis using assms(3,4) by (cases r) (simp_all add: takeDigits2_def)
  next
    case 2
    then show ?thesis using assms(3) by (simp add: takeDigits2_def)
  qed
qed

lemma matchDateAt_shape:
  assumes y: "length y = 4" "list_all isDigit y"
    and m: "m \<noteq> []" "length m \<le> 2" "list_all isDigit m"
    and d: "d \<noteq> []" "length d \<le> 2" "list_all isDigit d"
    and sp: "list_all isSpace sp1" "list_all isSpace sp2"
    and r: "case r of [] \<Rightarrow> True | c # r' \<Rightarrow> \<not> isDigit c"
  shows "matchDateAt (y @ sp1 @ ''-'' @ sp2 @ m @ ''/'' @ d @ r) = Some ((y, m, d), r)"
proof -
  let ?s = "y @ sp1 @ ''-'' @ sp2 @ m @ ''/'' @ d @ r"
  have t: "take 4 ?s = y" "drop 4 ?s = sp1 @ ''-'' @ sp2 @ m @ ''/'' @ d @ r"
    using y(1) by simp_all
  have a: "dropWhile isSpace (sp1 @ CHR ''-'' # sp2 @ m @ CHR ''/'' # d @ r)
             = CHR ''-'' # sp2 @ m @ CHR ''/'' # d @ r"
    using sp(1) by (simp add: dropWhile_spaces dash_slash_chars)
  have b: "dropWhile isSpace (sp2 @ m @ CHR ''/'' # d @ r) = m @ CHR ''/'' # d @ r"
  proof -
    have "\<not> isSpace (hd m)" using m(1,3) space_no_digit by (cases m) auto
    then have "dropWhile isSpace (m @ CHR ''/'' # d @ r) = m @ CHR ''/'' # d @ r"
      using m(1) by (cases m) auto
    then show ?thesis using sp(2) by (simp add: dropWhile_spaces)
  qed
  have c: "takeDigits2 (m @ CHR ''/'' # d @ r) = (m, CHR ''/'' # d @ r)"
    using m by (intro takeDigits2_digits) (simp_all add: dash_slash_chars)
  have e: "takeDigits2 (d @ r) = (d, r)"
    using d r by (intro takeDigits2_digits)
  show ?thesis
    unfolding matchDateAt_def Let_def t
    using y m(1) d(1) by (simp add: a b c e)
qed

lemma matchDate_at_start:
  "matchDateAt s = Some (g, r) \<Longrightarrow> matchDate s = Some g"
  by (cases s) (simp_all add: matchDateAt_def)

lemma matchDate_None_at_start: "matchDate s = None \<Longrightarrow> matchDateAt s = None"
  by (cases s) (auto simp: matchDateAt_def split: option.splits)

lemma stripDatePrefix_shape:
  assumes y: "length y = 4" "list_all isDigit y"
    and m: "m \<noteq> []" "length m \<le> 2" "list_all isDigit m"
    and d: "d \<noteq> []" "length d \<le> 2" "list_all isDigit d"
    and sp: "list_all isSpace sp1" "list_all isSpace sp2" "list_all isSpace sp3" "list_all isSpace sp4"
  shows "stripDatePrefix (y @ sp1 @ ''-'' @ sp2 @ m @ ''/'' @ d @ sp3 @ ''-'' @ sp4 @ rest)
           = dropWhile isSpace rest"
    and "matchDate (y @ sp1 @ ''-'' @ sp2 @ m @ ''/'' @ d @ sp3 @ ''-'' @ sp4 @ rest)
           = Some (y, m, d)"
proof -
  let ?r = "sp3 @ ''-'' @ sp4 @ rest"
  have r: "case ?r of [] \<Rightarrow> True | c # r' \<Rightarrow> \<not> isDigit c"
    using sp(3) space_no_digit by (cases sp3) (auto simp: dash_slash_chars)
  have at: "matchDateAt (y @ sp1 @ ''-'' @ sp2 @ m @ ''/'' @ d @ ?r) = Some ((y, m, d), ?r)"
    using y m d sp(1,2) r by (rule matchDateAt_shape)
  have dr: "dropWhile isSpace (sp3 @ CHR ''-'' # sp4 @ rest) = CHR ''-'' # sp4 @ rest"
    using sp(3) by (simp add: dropWhile_spaces dash_slash_chars)
  show "stripDatePrefix (y @ sp1 @ ''-'' @ sp2 @ m @ ''/'' @ d @ sp3 @ ''-'' @ sp4 @ rest)
           = dropWhile isSpace rest"
    unfolding stripDatePrefix_def at using sp(4) by (simp add: dr dropWhile_spaces)
  show "matchDate (y @ sp1 @ ''-'' @ sp2 @ m @ ''/'' @ d @ sp3 @ ''-'' @ sp4 @ rest)
           = Some (y, m, d)"
    using at by (rule matchDate_at_start)
qed

lemma trim_dropWhile: "trim (dropWhile isSpace s) = trim s"
  by (simp add: trim_def)

lemma padStart2_cases:
  "padStart2 s = replicate (2 - length s) (CHR ''0'') @ s"
  by (simp add: padStart2_def)

lemma categoryOf_specCategory: "categoryOf name = specCategory name"
  by (simp add: categoryOf_def specCategory_def categoryRules_def)

lemma extractEventFromRow_dated:
  assumes cell: "trim (orDefault (map_of row (eventCol colNames)) [])
                   = y @ sp1 @ ''-'' @ sp2 @ m @ ''/'' @ d @ sp3 @ ''-'' @ sp4 @ rest"
    and y: "length y = 4" "list_all isDigit y"
    and m: "m \<noteq> []" "length m \<le> 2" "list_all isDigit m"
    and d: "d \<noteq> []" "length d \<le> 2" "list_all isDigit d"
    and sp: "list_all isSpace sp1" "list_all isSpace sp2" "list_all isSpace sp3" "list_all isSpace sp4"
  shows "startDate (extractEventFromRow row colNames)
           = y @ ''-'' @ replicate (2 - length m) (CHR ''0'') @ m
               @ ''-'' @ replicate (2 - length d) (CHR ''0'') @ d"
    and "length (startDate (extractEventFromRow row colNames)) = 10"
    and "eventName (extractEventFromRow row colNames) = trim rest"
proof -
  note shape = stripDatePrefix_shape[OF y m d sp, of rest]
  show s: "startDate (extractEventFromRow row colNames)
           = y @ ''-'' @ replicate (2 - length m) (CHR ''0'') @ m
               @ ''-'' @ replicate (2 - length d) (CHR ''0'') @ d"
    unfolding extractEventFromRow_def Let_def cell shape by (simp add: padStart2_def)
  show "length (startDate (extractEventFromRow row colNames)) = 10"
    unfolding s using y(1) m(1,2) d(1,2) by (cases m; cases d) auto
  show "eventName (extractEventFromRow row colNames) = trim rest"
    unfolding extractEventFromRow_def Let_def cell shape by (simp add: trim_dropWhile)
qed

lemma extractEventFromRow_undated:
  assumes "matchDate (trim (orDefault (map_of row (eventCol colNames)) [])) = None"
  shows "startDate (extractEventFromRow row colNames) = []"
    and "endDate (extractEventFromRow row colNames) = []"
    and "eventName (extractEventFromRow row colNames)
           = trim (orDefault (map_of row (eventCol colNames)) [])"
proof -
  have "matchDateAt (trim (orDefault (map_of row (eventCol colNames)) [])) = None"
    using assms by (rule matchDate_None_at_start)
  then have strip: "stripDatePrefix (trim (orDefault (map_of row (eventCol colNames)) []))
                = trim (orDefault (map_of row (eventCol colNames)) [])"
    by (simp add: stripDatePrefix_def)
  show "startDate (extractEventFromRow row colNames) = []"
    and "endDate (extractEventFromRow row colNames) = []"
    unfolding extractEventFromRow_def Let_def assms by simp_all
  show "eventName (extractEventFromRow row colNames)
           = trim (orDefault (map_of row (eventCol colNames)) [])"
    unfolding extractEventFromRow_def Let_def strip by (simp add: trim_idem)
qed

text \<open>
  C5. A row whose event cell is \<open>2025 - 11/29 - Leaf Center Service Project (2 pm - 4 pm)\<close>,
  whose first name is \<open>Jane\<close>, last name \<open>Doe\<close> and role \<open>Scout\<close> (each read in
  the column the extractor resolves for it) yields the signup with person name
  \<open>Jane Doe\<close>, the name without its date prefix, start and end date \<open>2025-11-29\<close>,
  the service-project category and no adult flag. For every row: the end date is the
  start date; the category is the one the first matching rule of the ordered list gives
  for the cleaned name, compared in lower case; an event cell that, trimmed, is a
  four-digit year, a dash, a month and a day of one or two digits each with a slash
  between them, a dash and a rest (white space allowed around the dashes) has the start
  date \<open>year-month-day\<close> with month and day padded with a zero to two digits, ten
  characters in all, and the trimmed rest as its name; an event cell in which the date
  pattern does not occur has empty dates and keeps its trimmed text as its name.
\<close>

theorem extractEventFromRow_example:
  assumes "map_of row (eventCol colNames)
             = Some ''2025 - 11/29 - Leaf Center Service Project (2 pm - 4 pm)''"
    and "map_of row (firstNameCol colNames) = Some ''Jane''"
    and "map_of row (lastNameCol colNames) = Some ''Doe''"
    and "map_of row (patrolCol colNames) = Some ''Scout''"
  shows "extractEventFromRow row colNames =
           \<lparr>eventName = ''Leaf Center Service Project (2 pm - 4 pm)'',
            startDate = ''2025-11-29'', endDate = ''2025-11-29'',
            category = ''Service Project'',
            scoutName = ''Jane Doe'', isAdult = False, rawRow = row\<rparr> \<and>
         endDate (extractEventFromRow row' colNames') = startDate (extractEventFromRow row' colNames') \<and>
         category (extractEventFromRow row' colNames')
           = categoryOf (eventName (extractEventFromRow row' colNames')) \<and>
         category (extractEventFromRow row' colNames')
           = specCategory (eventName (extractEventFromRow row' colNames')) \<and>
         (trim (orDefault (map_of row' (eventCol colNames')) [])
            = y @ sp1 @ ''-'' @ sp2 @ m @ ''/'' @ d @ sp3 @ ''-'' @ sp4 @ rest \<and>
          length y = 4 \<and> list_all isDigit y \<and>
          m \<noteq> [] \<and> length m \<le> 2 \<and> list_all isDigit m \<and>
          d \<noteq> [] \<and> length d \<le> 2 \<and> list_all isDigit d \<and>
          list_all isSpace sp1 \<and> list_all isSpace sp2 \<and>
          list_all isSpace sp3 \<and> list_all isSpace sp4
          \<longrightarrow> startDate (extractEventFromRow row' colNames')
                = y @ ''-'' @ replicate (2 - length m) (CHR ''0'') @ m
                    @ ''-'' @ replicate (2 - length d) (CHR ''0'') @ d \<and>
              length (startDate (extractEventFromRow row' colNames')) = 10 \<and>
              eventName (extractEventFromRow row' colNames') = trim rest) \<and>
         (matchDate (trim (orDefault (map_of row' (eventCol colNames')) [])) = None
          \<longrightarrow> startDate (extractEventFromRow row' colNames') = [] \<and>
              endDate (extractEventFromRow row' colNames') = [] \<and>
              eventName (extractEventFromRow row' colNames')
                = trim (orDefault (map_of row' (eventCol colNames')) []))"
proof -
  have ex: "extractEventFromRow row colNames =
           \<lparr>eventName = ''Leaf Center Service Project (2 pm - 4 pm)'',
            startDate = ''2025-11-29'', endDate = ''2025-11-29'',
            category = ''Service Project'',
            scoutName = ''Jane Doe'', isAdult = False, rawRow = row\<rparr>"
    unfolding extractEventFromRow_def Let_def
    by (simp add: assms orDefault_def leaf_trim leaf_date leaf_name leaf_category
          jane_doe scout_role pad_11_29 del: matchDate.simps str_includes.simps)
  have en: "endDate (extractEventFromRow row' colNames') = startDate (extractEventFromRow row' colNames')"
    by (simp add: extractEventFromRow_def Let_def)
  have cat: "category (extractEventFromRow row' colNames')
           = categoryOf (eventName (extractEventFromRow row' colNames'))"
    by (simp add: extractEventFromRow_def Let_def)
  show ?thesis
    using ex en cat categoryOf_specCategory[of "eventName (extractEventFromRow row' colNames')"]
      extractEventFromRow_dated[of row' colNames' y sp1 sp2 m d sp3 sp4 rest]
      extractEventFromRow_undated[of row' colNames']
    by (simp only:) blast
qed

theorem extractEventFromRow_example_witness:
  "map_of leafRow (eventCol sheetColumns)
     = Some ''2025 - 11/29 - Leaf Center Service Project (2 pm - 4 pm)'' \<and>
   map_of leafRow (firstNameCol sheetColumns) = Some ''Jane'' \<and>
   map_of leafRow (lastNameCol sheetColumns) = Some ''Doe'' \<and>
   map_of leafRow (patrolCol sheetColumns) = Some ''Scout'' \<and>
   extractEventFromRow leafRow sheetColumns =
     \<lparr>eventName = ''Leaf Center Service Project (2 pm - 4 pm)'',
      startDate = ''2025-11-29'', endDate = ''2025-11-29'',
      category = ''Service Project'',
      scoutName = ''Jane Doe'', isAdult = False, rawRow = leafRow\<rparr> \<and>
   trim (orDefault (map_of campRow (eventCol sheetColumns)) [])
     = ''2025'' @ '' '' @ ''-'' @ '' '' @ ''1'' @ ''/'' @ ''5'' @ '' '' @ ''-'' @ '' ''
         @ ''Summer Camp Fundraiser'' \<and>
   list_all isDigit ''2025'' \<and> list_all isDigit ''1'' \<and> list_all isDigit ''5'' \<and>
   list_all isSpace '' '' \<and>
   startDate (extractEventFromRow campRow sheetColumns) = ''2025-01-05'' \<and>
   endDate (extractEventFromRow campRow sheetColumns) = ''2025-01-05'' \<and>
   eventName (extractEventFromRow campRow sheetColumns) = ''Summer Camp Fundraiser'' \<and>
   category (extractEventFromRow campRow sheetColumns) = ''Fundraiser'' \<and>
   matchDate (trim (orDefault (map_of (sheetRow ''Court of Honor'' ''Jon'' ''Smith'' ''Scout'')
                      (eventCol sheetColumns)) [])) = None \<and>
   startDate (extractEventFromRow (sheetRow ''Court of Honor'' ''Jon'' ''Smith'' ''Scout'')
                sheetColumns) = []"
proof -
  have h1: "map_of leafRow (eventCol sheetColumns)
              = Some ''2025 - 11/29 - Leaf Center Service Project (2 pm - 4 pm)''"
    by code_simp
  have h2: "map_of leafRow (firstNameCol sheetColumns) = Some ''Jane''" by code_simp
  have h3: "map_of leafRow (lastNameCol sheetColumns) = Some ''Doe''" by code_simp
  have h4: "map_of leafRow (patrolCol sheetColumns) = Some ''Scout''" by code_simp
  have c: "trim (orDefault (map_of campRow (eventCol sheetColumns)) [])
     = ''2025'' @ '' '' @ ''-'' @ '' '' @ ''1'' @ ''/'' @ ''5'' @ '' '' @ ''-'' @ '' ''
         @ ''Summer Camp Fundraiser''"
    by code_simp
  have g: "list_all isDigit ''2025''" "list_all isDigit ''1''" "list_all isDigit ''5''"
    "list_all isSpace '' ''"
    by code_simp+
  have t: "trim ''Summer Camp Fundraiser'' = ''Summer Camp Fundraiser''" by code_simp
  have k: "specCategory ''Summer Camp Fundraiser'' = ''Fundraiser''" by code_simp
  have u: "matchDate (trim (orDefault (map_of (sheetRow ''Court of Honor'' ''Jon'' ''Smith'' ''Scout'')
                      (eventCol sheetColumns)) [])) = None"
    by code_simp
  note dated = extractEventFromRow_example[OF h1 h2 h3 h4, of campRow sheetColumns
      "''2025''" "'' ''" "'' ''" "''1''" "''5''" "'' ''" "'' ''" "''Summer Camp Fundraiser''"]
  note undated = extractEventFromRow_example[OF h1 h2 h3 h4,
      of "sheetRow ''Court of Honor'' ''Jon'' ''Smith'' ''Scout''" sheetColumns]
  have s: "startDate (extractEventFromRow campRow sheetColumns) = ''2025-01-05''"
    and n: "eventName (extractEventFromRow campRow sheetColumns) = ''Summer Camp Fundraiser''"
    using dated c g by (simp_all add: t)
  have e: "endDate (extractEventFromRow campRow sheetColumns) = ''2025-01-05''"
    using dated s by simp
  have "category (extractEventFromRow campRow sheetColumns)
          = specCategory (eventName (extractEventFromRow campRow sheetColumns))"
    using dated by blast
  then have cat: "category (extractEventFromRow campRow sheetColumns) = ''Fundraiser''"
    by (simp only: n k)
  have z: "startDate (extractEventFromRow (sheetRow ''Court of Honor'' ''Jon'' ''Smith'' ''Scout'')
                sheetColumns) = []"
    using undated u by blast
  have ex: "extractEventFromRow leafRow sheetColumns =
     \<lparr>eventName = ''Leaf Center Service Project (2 pm - 4 pm)'',
      startDate = ''2025-11-29'', endDate = ''2025-11-29'',
      category = ''Service Project'',
      scoutName = ''Jane Doe'', isAdult = False, rawRow = leafRow\<rparr>"
    using dated by blast
  show ?thesis
    by (intro conjI) (rule h1 h2 h3 h4 ex c g s e n cat u z)+
qed

text \<open>
  The columns are resolved by label and then by position. Where no label names a first
  or a last name, as with the labels \<open>EventCol\<close>, \<open>First\<close>, \<open>Last\<close>, \<open>Role\<close>, the
  first name is read from the third column and the last name from the fourth.
\<close>

lemma extractEventFromRow_by_position:
  "firstNameCol [''EventCol'', ''First'', ''Last'', ''Role''] = ''Last'' \<and>
   lastNameCol [''EventCol'', ''First'', ''Last'', ''Role''] = ''Role'' \<and>
   scoutName (extractEventFromRow
      [(''EventCol'', ''2025 - 11/29 - Leaf Center Service Project (2 pm - 4 pm)''),
       (''First'', ''Jane''), (''Last'', ''Doe''), (''Role'', ''Scout'')]
      [''EventCol'', ''First'', ''Last'', ''Role'']) = ''Doe Scout''"
  by code_simp

section \<open>Temporal classifier: the two lists and the time zone\<close>

lemma classifyEvents_loop:
  "foldl (\<lambda>(future, past) e. if P e then (future, past @ [e]) else (future @ [e], past)) (f, p) evs
     = (f @ filter (\<lambda>e. \<not> P e) evs, p @ filter P evs)"
  by (induction evs arbitrary: f p) auto

lemma classifyEvents_filter:
  "classifyEvents parseDate startOfDay today evs =
     (filter (\<lambda>e. \<not> eventBeforeToday parseDate startOfDay today e) evs,
      filter (eventBeforeToday parseDate startOfDay today) evs)"
  unfolding classifyEvents_def by (simp add: classifyEvents_loop)

text \<open>
  What holds on every platform, whatever the date constructor and the local midnight
  are: the future list holds, in order, the events that are not before today and the
  past list those that are, so the two lists together hold every event as often as the
  input does and each event of the input is in exactly one of them. The decision is
  made on the end date of the event if it is not empty and on its start date otherwise,
  and on nothing else of the event: it is past exactly when that date parses and the
  midnight of its day is earlier than today. An event whose date does not parse is in
  the future list; \<^verbatim>\<open>isEventPast\<close> answers false for a string that does not parse.
\<close>

lemma classifyEvents_partition:
  "classifyEvents parseDate startOfDay today evs =
     (filter (\<lambda>e. \<not> eventBeforeToday parseDate startOfDay today e) evs,
      filter (eventBeforeToday parseDate startOfDay today) evs) \<and>
   mset (fst (classifyEvents parseDate startOfDay today evs))
     + mset (snd (classifyEvents parseDate startOfDay today evs)) = mset evs \<and>
   (\<forall>e \<in> set evs. (e \<in> set (fst (classifyEvents parseDate startOfDay today evs)))
                   \<noteq> (e \<in> set (snd (classifyEvents parseDate startOfDay today evs)))) \<and>
   (\<forall>e. eventBeforeToday parseDate startOfDay today e =
        (case parseDate (if endDate e \<noteq> [] then endDate e else startDate e) of
           None \<Rightarrow> False
         | Some t \<Rightarrow> (case startOfDay t of None \<Rightarrow> False | Some d \<Rightarrow> d < today))) \<and>
   (\<forall>e \<in> set evs. parseDate (if endDate e \<noteq> [] then endDate e else startDate e) = None \<longrightarrow>
       e \<in> set (fst (classifyEvents parseDate startOfDay today evs)) \<and>
       e \<notin> set (snd (classifyEvents parseDate startOfDay today evs))) \<and>
   (\<forall>s. parseDate s = None \<longrightarrow> \<not> isEventPast parseDate today s)"
  by (auto simp: classifyEvents_filter eventBeforeToday_def isEventPast_def comparisonDate_def)

lemma classifyEvents_example:
  "classifyEvents knownDates (startOfDayIn 0) 1764547200000
     [leafEvent, eagleEvent, undatedEvent, rangeEvent]
     = ([eagleEvent, undatedEvent, rangeEvent], [leafEvent])"
  by code_simp

text \<open>
  The date of an event is read as midnight UTC of its day \<open>k\<close>, and today is the local
  midnight of the same day. In a zone behind UTC the local midnight of the event's
  instant is that of the day before, so the event is before today; in UTC and in a zone
  ahead of it, it is not.
\<close>

lemma startOfDayIn_west:
  assumes "- msPerDay < offset" "offset < 0"
  shows "startOfDayIn offset (k * msPerDay) = Some ((k - 1) * msPerDay - offset)"
proof -
  have "(k * msPerDay + offset) div msPerDay = k - 1"
    using assms by (simp add: msPerDay_def div_pos_neg_trivial) 
  then show ?thesis by (simp add: startOfDayIn_def)
qed

lemma startOfDayIn_east:
  assumes "0 \<le> offset" "offset < msPerDay"
  shows "startOfDayIn offset (k * msPerDay) = Some (k * msPerDay - offset)"
proof -
  have "(k * msPerDay + offset) div msPerDay = k"
    using assms by (simp add: msPerDay_def)
  then show ?thesis by (simp add: startOfDayIn_def)
qed

lemma today_local:
  assumes "- msPerDay < offset" "offset < msPerDay" "0 \<le> h" "h < msPerDay"
  shows "startOfDayIn offset (k * msPerDay - offset + h) = Some (k * msPerDay - offset)"
  using assms by (simp add: startOfDayIn_def msPerDay_def)

lemma eventBeforeToday_west:
  assumes "- msPerDay < offset" "offset < 0"
    and "parseDate (comparisonDate e) = Some (k * msPerDay)"
  shows "eventBeforeToday parseDate (startOfDayIn offset) (k * msPerDay - offset) e"
proof -
  have "(k - 1) * msPerDay - offset < k * msPerDay - offset"
    by (simp add: msPerDay_def algebra_simps)
  then show ?thesis
    by (simp only: eventBeforeToday_def assms(3) startOfDayIn_west[OF assms(1,2)] option.case)
qed

lemma eventBeforeToday_east:
  assumes "0 \<le> offset" "offset < msPerDay"
    and "parseDate (comparisonDate e) = Some (k * msPerDay)"
  shows "\<not> eventBeforeToday parseDate (startOfDayIn offset) (k * msPerDay - offset) e"
  by (simp only: eventBeforeToday_def assms(3) startOfDayIn_east[OF assms(1,2)] option.case
        less_irrefl not_False_eq_True)

text \<open>
  C4. An event is to be past when its date is earlier than today and future otherwise.
  The code compares the midnight of the event's day with the midnight of today, both in
  local time, but the date of the event is read as midnight UTC. West of UTC that
  instant lies in the evening of the day before, so an event dated today is classified
  as past. In a zone eight hours behind UTC, at 10 o'clock in the morning of
  2025-11-29 (18 o'clock UTC), today is the local midnight of 2025-11-29 and the event
  dated 2025-11-29 is compared as the local midnight of 2025-11-28: it is in the past
  list, and so is the event the aggregator makes of a sheet with signups for that day.
  In UTC it is in the future list.
\<close>

theorem classifyEvents_today_is_past:
  "endDate leafEvent = ''2025-11-29'' \<and>
   daysFromCivil 2025 11 29 * msPerDay = 1764374400000 \<and>
   knownDates ''2025-11-29'' = Some (daysFromCivil 2025 11 29 * msPerDay) \<and>
   startOfDayIn (- 28800000) (daysFromCivil 2025 11 29 * msPerDay + 18 * 3600000)
     = Some 1764403200000 \<and>
   startOfDayIn (- 28800000) (daysFromCivil 2025 11 29 * msPerDay)
     = Some (1764403200000 - msPerDay) \<and>
   classifyEvents knownDates (startOfDayIn (- 28800000)) 1764403200000 [leafEvent]
     = ([], [leafEvent]) \<and>
   map endDate (convertSheetToEvents janeSheet) = [''2025-11-29''] \<and>
   fst (classifyEvents knownDates (startOfDayIn (- 28800000)) 1764403200000
          (convertSheetToEvents janeSheet)) = [] \<and>
   snd (classifyEvents knownDates (startOfDayIn (- 28800000)) 1764403200000
          (convertSheetToEvents janeSheet)) = convertSheetToEvents janeSheet \<and>
   startOfDayIn 0 (daysFromCivil 2025 11 29 * msPerDay + 18 * 3600000)
     = Some 1764374400000 \<and>
   classifyEvents knownDates (startOfDayIn 0) 1764374400000 [leafEvent]
     = ([leafEvent], [])"
  by code_simp

section \<open>Ingestion is idempotent\<close>

text \<open>
  C9. An ingestion pass overwrites the event lists and the scout list with values computed
  from the sheet and the reference date alone. Running it a second time on the same
  input leaves the state as the first run left it, and the lists it produces are the
  same from whatever state it starts.
\<close>

theorem ingest_idempotent:
  "ingest parseDate startOfDay today sd (ingest parseDate startOfDay today sd st)
     = ingest parseDate startOfDay today sd st \<and>
   futureEvents (ingest parseDate startOfDay today sd st)
     = futureEvents (ingest parseDate startOfDay today sd st') \<and>
   pastEvents (ingest parseDate startOfDay today sd st)
     = pastEvents (ingest parseDate startOfDay today sd st') \<and>
   allScouts (ingest parseDate startOfDay today sd st)
     = allScouts (ingest parseDate startOfDay today sd st')"
  by (simp add: ingest_def split_def Let_def)


section \<open>Fuzzy matcher: scores\<close>

lemma max_candidates:
  fixes a b c t bw cw v :: rat and P :: bool
  defines "s1 \<equiv> (if a > t then max 0 a else 0)"
  defines "s2 \<equiv> (if b > t then max s1 bw else s1)"
  defines "s3 \<equiv> (if c > t then max s2 cw else s2)"
  shows "(if P then max s3 v else s3)
     = Max (set (0 # (if a > t then [a] else []) @ (if b > t then [bw] else []) @
                     (if c > t then [cw] else []) @ (if P then [v] else [])))"
  unfolding s1_def s2_def s3_def
  by (simp add: Max.set_eq_fold max.commute del: set_simps)

lemma scoutScore_specScore: "scoutScore t s = specScore t s"
  unfolding scoutScore_def specScore_def specCandidates_def Let_def
  by (rule max_candidates)

lemma scoutScore_substring:
  "str_includes (toLowerCase (fullName s)) t \<or> str_includes (toLowerCase (firstName s)) t \<or>
   str_includes (toLowerCase (lastName s)) t \<Longrightarrow> double (7 / 10) \<le> scoutScore t s"
  unfolding scoutScore_def Let_def by (simp add: max_def)

section \<open>Fuzzy matcher: the stable sort\<close>

lemma set_insertBy: "set (insertBy cmp x ys) = insert x (set ys)"
  by (induction ys) auto

lemma set_sortBy: "set (sortBy cmp xs) = set xs"
  by (induction xs) (simp_all add: sortBy_def set_insertBy)

lemma mset_insertBy: "mset (insertBy cmp x ys) = add_mset x (mset ys)"
  by (induction ys) auto

lemma mset_sortBy: "mset (sortBy cmp xs) = mset xs"
  by (induction xs) (simp_all add: sortBy_def mset_insertBy)

lemma sortBy_Nil: "sortBy cmp [] = []"
  by (simp add: sortBy_def)

lemma sortBy_Cons: "sortBy cmp (x # xs) = insertBy cmp x (sortBy cmp xs)"
  by (simp add: sortBy_def)

lemma insertBy_descending:
  "sorted_wrt (\<lambda>a b. snd b \<le> snd a) ys \<Longrightarrow>
   sorted_wrt (\<lambda>a b. snd b \<le> snd a) (insertBy (\<lambda>a b. double (snd b - snd a)) (x :: 'a \<times> rat) ys)"
  by (induction ys) (auto simp: set_insertBy double_diff_sign)

lemma sortBy_descending:
  "sorted_wrt (\<lambda>a b. snd b \<le> snd a) (sortBy (\<lambda>a b. double (snd b - snd a)) (xs :: ('a \<times> rat) list))"
  by (induction xs) (simp_all add: sortBy_Nil sortBy_Cons insertBy_descending)

lemma filter_insertBy_other:
  "\<not> P x \<Longrightarrow> filter P (insertBy cmp x ys) = filter P ys"
  by (induction ys) auto

text \<open>An element is inserted in front of the elements of its own score: the elements it
  passes have a greater one.\<close>

lemma filter_insertBy_same:
  "snd x = k \<Longrightarrow>
   filter (\<lambda>y. snd y = k) (insertBy (\<lambda>a b. double (snd b - snd a)) (x :: 'a \<times> rat) ys)
     = x # filter (\<lambda>y. snd y = k) ys"
  by (induction ys) (auto simp: double_diff_sign)

lemma sortBy_stable:
  "filter (\<lambda>y. snd y = k) (sortBy (\<lambda>a b. double (snd b - snd a)) (xs :: ('a \<times> rat) list))
     = filter (\<lambda>y. snd y = k) xs"
proof (induction xs)
  case Nil
  show ?case by (simp add: sortBy_Nil)
next
  case (Cons x xs)
  show ?case
  proof (cases "snd x = k")
    case True
    then show ?thesis by (simp add: sortBy_Cons filter_insertBy_same Cons.IH)
  next
    case False
    then show ?thesis by (simp add: sortBy_Cons filter_insertBy_other Cons.IH)
  qed
qed

lemma scoredResults_loop:
  "foldl (\<lambda>results scout. let score = f scout in
            if score > c then results @ [(scout, score)] else results) acc xs
     = acc @ map (\<lambda>s. (s, f s)) (filter (\<lambda>s. f s > c) xs)"
  by (induction xs arbitrary: acc) (simp_all add: Let_def)

lemma scoredResults_filter:
  "scoredResults t xs = map (\<lambda>s. (s, scoutScore t s)) (filter (\<lambda>s. scoutScore t s > double (3 / 10)) xs)"
  unfolding scoredResults_def scoredResults_loop by simp

lemma searchScouts_sorted_results:
  "searchScouts q xs =
     (if trim q = [] then []
      else map fst (sortBy (\<lambda>a b. double (snd b - snd a)) (scoredResults (toLowerCase (trim q)) xs)))"
  by (cases "q = []")
     (simp_all add: searchScouts_def trim_Nil scoredResults_def sortBy_Nil Let_def)

lemma sorted_scored_snd:
  "y \<in> set (sortBy cmp (scoredResults t xs)) \<Longrightarrow>
   snd y = scoutScore t (fst y) \<and> fst y \<in> set xs \<and> scoutScore t (fst y) > double (3 / 10)"
  by (auto simp: set_sortBy scoredResults_filter)

text \<open>
  Descending order together with stability leaves one list only, so the result does not
  depend on how the engine sorts: every list that is in descending order of score and
  keeps, for each score, the elements of that score in their order is the list
  \<^verbatim>\<open>sortBy\<close> gives.
\<close>

lemma sorted_stable_unique:
  fixes f :: "'a \<Rightarrow> rat"
  assumes "sorted_wrt (\<lambda>a b. f b \<le> f a) ys" "sorted_wrt (\<lambda>a b. f b \<le> f a) zs"
    and "\<forall>k. filter (\<lambda>x. f x = k) ys = filter (\<lambda>x. f x = k) zs"
  shows "ys = zs"
  using assms
proof (induction ys arbitrary: zs)
  case Nil
  show ?case
  proof (cases zs)
    case Nil
    then show ?thesis by simp
  next
    case (Cons z zs')
    have "filter (\<lambda>x. f x = f z) [] = filter (\<lambda>x. f x = f z) zs" using Nil.prems(3) by blast
    then show ?thesis using Cons by simp
  qed
next
  case (Cons y ys')
  have eqk: "filter (\<lambda>x. f x = k) (y # ys') = filter (\<lambda>x. f x = k) zs" for k
    using Cons.prems(3) by blast
  have yin: "y \<in> set zs"
  proof -
    have "y \<in> set (filter (\<lambda>x. f x = f y) (y # ys'))" by simp
    then have "y \<in> set (filter (\<lambda>x. f x = f y) zs)" by (simp only: eqk)
    then have "y \<in> set zs \<and> f y = f y" by (simp only: set_filter mem_Collect_eq)
    then show ?thesis by (rule conjunct1)
  qed
  then obtain z zs' where zs: "zs = z # zs'" by (cases zs) auto
  have zin: "z \<in> set (y # ys')"
  proof -
    have "z \<in> set (filter (\<lambda>x. f x = f z) zs)" using zs by simp
    then have "z \<in> set (filter (\<lambda>x. f x = f z) (y # ys'))" by (simp only: eqk)
    then have "z \<in> set (y # ys') \<and> f z = f z" by (simp only: set_filter mem_Collect_eq)
    then show ?thesis by (rule conjunct1)
  qed
  have "f y \<le> f z" using yin Cons.prems(2) zs by auto
  moreover have "f z \<le> f y" using zin Cons.prems(1) by auto
  ultimately have fe: "f z = f y" by simp
  have "filter (\<lambda>x. f x = f y) (y # ys') = filter (\<lambda>x. f x = f y) (z # zs')"
    using eqk[of "f y"] by (simp only: zs)
  moreover have "filter (\<lambda>x. f x = f y) (y # ys') = y # filter (\<lambda>x. f x = f y) ys'"
    by simp
  moreover have "filter (\<lambda>x. f x = f y) (z # zs') = z # filter (\<lambda>x. f x = f y) zs'"
    by (simp only: filter.simps fe if_True simp_thms)
  ultimately have "y # filter (\<lambda>x. f x = f y) ys' = z # filter (\<lambda>x. f x = f y) zs'"
    by (simp only:)
  then have both: "y = z \<and> filter (\<lambda>x. f x = f y) ys' = filter (\<lambda>x. f x = f y) zs'"
    by blast
  have hd: "y = z" using both by (rule conjunct1)
  have tl: "filter (\<lambda>x. f x = f y) ys' = filter (\<lambda>x. f x = f y) zs'"
    using both by (rule conjunct2)
  have "filter (\<lambda>x. f x = k) ys' = filter (\<lambda>x. f x = k) zs'" for k
  proof (cases "k = f y")
    case True
    then show ?thesis using tl by simp
  next
    case False
    then show ?thesis using eqk[of k] zs fe by auto
  qed
  then have "ys' = zs'"
    using Cons.IH[of zs'] Cons.prems(1,2) zs by simp
  then show ?case using hd zs by simp
qed

lemma sortBy_unique:
  assumes "sorted_wrt (\<lambda>a b. snd b \<le> snd a) (ys :: ('a \<times> rat) list)"
    and "\<forall>k. filter (\<lambda>y. snd y = k) ys = filter (\<lambda>y. snd y = k) xs"
  shows "ys = sortBy (\<lambda>a b. double (snd b - snd a)) xs"
  using assms(1) sortBy_descending[of xs]
proof (rule sorted_stable_unique)
  show "\<forall>k. filter (\<lambda>x. snd x = k) ys
          = filter (\<lambda>x. snd x = k) (sortBy (\<lambda>a b. double (snd b - snd a)) xs)"
    using assms(2) by (simp add: sortBy_stable)
qed

lemma searchScouts_descending:
  "sorted_wrt (\<lambda>a b. scoutScore (toLowerCase (trim q)) b \<le> scoutScore (toLowerCase (trim q)) a)
     (searchScouts q xs)"
proof (cases "trim q = []")
  case True
  then show ?thesis by (simp add: searchScouts_sorted_results)
next
  case False
  let ?t = "toLowerCase (trim q)"
  let ?L = "sortBy (\<lambda>a b. double (snd b - snd a)) (scoredResults ?t xs)"
  have "sorted_wrt (\<lambda>a b. snd b \<le> snd a) ?L" by (rule sortBy_descending)
  then have "sorted_wrt (\<lambda>a b. scoutScore ?t (fst b) \<le> scoutScore ?t (fst a)) ?L"
    by (rule sorted_wrt_mono_rel[rotated]) (use sorted_scored_snd in fastforce)
  then show ?thesis
    using False by (simp add: searchScouts_sorted_results sorted_wrt_map)
qed

lemma searchScouts_stable:
  "filter (\<lambda>s. scoutScore (toLowerCase (trim q)) s = k) (searchScouts q xs)
     = (if trim q = [] \<or> k \<le> double (3 / 10) then []
        else filter (\<lambda>s. scoutScore (toLowerCase (trim q)) s = k) xs)"
proof (cases "trim q = []")
  case True
  then show ?thesis by (simp add: searchScouts_sorted_results)
next
  case False
  let ?t = "toLowerCase (trim q)"
  let ?R = "scoredResults ?t xs"
  let ?L = "sortBy (\<lambda>a b. double (snd b - snd a)) ?R"
  have "filter (\<lambda>s. scoutScore ?t s = k) (map fst ?L)
      = map fst (filter (\<lambda>y. scoutScore ?t (fst y) = k) ?L)"
    by (simp add: filter_map comp_def)
  also have "filter (\<lambda>y. scoutScore ?t (fst y) = k) ?L = filter (\<lambda>y. snd y = k) ?L"
    by (rule filter_cong) (use sorted_scored_snd in auto)
  also have "\<dots> = filter (\<lambda>y. snd y = k) ?R" by (rule sortBy_stable)
  also have "map fst \<dots> = filter (\<lambda>s. scoutScore ?t s = k) (filter (\<lambda>s. scoutScore ?t s > double (3 / 10)) xs)"
    by (simp add: scoredResults_filter filter_map comp_def)
  also have "\<dots> = (if k \<le> double (3 / 10) then [] else filter (\<lambda>s. scoutScore ?t s = k) xs)"
    by (auto intro: filter_cong simp: filter_empty_conv)
  finally show ?thesis using False by (simp add: searchScouts_sorted_results)
qed

lemma searchScouts_mset:
  "mset (searchScouts q xs) =
    (if trim q = [] then {#}
     else mset (filter (\<lambda>s. scoutScore (toLowerCase (trim q)) s > double (3 / 10)) xs))"
proof (cases "trim q = []")
  case True
  then show ?thesis by (simp add: searchScouts_sorted_results)
next
  case False
  let ?t = "toLowerCase (trim q)"
  let ?R = "scoredResults ?t xs"
  have "mset (map fst (sortBy (\<lambda>a b. double (snd b - snd a)) ?R)) = image_mset fst (mset ?R)"
    by (simp add: mset_sortBy)
  also have "\<dots> = mset (map fst ?R)" by simp
  also have "map fst ?R = filter (\<lambda>s. scoutScore ?t s > double (3 / 10)) xs"
    unfolding scoredResults_filter by (simp add: comp_def)
  finally show ?thesis using False by (simp only: searchScouts_sorted_results if_False)
qed

text \<open>
  C6. The score \<^verbatim>\<open>searchScouts\<close> computes for an identity is the greatest of the
  contributing candidates (full-name similarity; first-name and last-name similarity
  times 0.9; each only if the similarity exceeds 0.3), and at least 0.7 if the query,
  compared without regard to case, occurs in the full, first or last name. The
  similarities are taken against the trimmed, lower-cased query, which for a query
  that is not blank are the similarities against the query itself. The results
  hold identities of the corpus whose score exceeds 0.3 and no other; for a query that is
  not blank they hold every such identity, as often as the corpus does. A blank query
  has no results.
\<close>

theorem searchScouts_scores:
  "scoutScore t s = specScore t s \<and>
   (trim q \<noteq> [] \<longrightarrow>
      calculateSimilarity name (toLowerCase (trim q)) = calculateSimilarity name q) \<and>
   (str_includes (toLowerCase (fullName s)) (toLowerCase q) \<or>
    str_includes (toLowerCase (firstName s)) (toLowerCase q) \<or>
    str_includes (toLowerCase (lastName s)) (toLowerCase q)
      \<longrightarrow> double (7 / 10) \<le> scoutScore (toLowerCase (trim q)) s) \<and>
   mset (searchScouts q corpus) =
     (if trim q = [] then {#}
      else mset (filter (\<lambda>s. scoutScore (toLowerCase (trim q)) s > double (3 / 10)) corpus)) \<and>
   (\<forall>r \<in> set (searchScouts q corpus).
      r \<in> set corpus \<and> \<not> scoutScore (toLowerCase (trim q)) r \<le> double (3 / 10))"
proof -
  have "\<forall>r \<in> set (searchScouts q corpus).
      r \<in> set corpus \<and> \<not> scoutScore (toLowerCase (trim q)) r \<le> double (3 / 10)"
  proof
    fix r assume "r \<in> set (searchScouts q corpus)"
    then have "r \<in># mset (searchScouts q corpus)" by simp
    then show "r \<in> set corpus \<and> \<not> scoutScore (toLowerCase (trim q)) r \<le> double (3 / 10)"
      unfolding searchScouts_mset by (auto split: if_splits)
  qed
  then show ?thesis
    using scoutScore_specScore[of t s] searchScouts_mset[of q corpus]
      scoutScore_substring[of s "toLowerCase (trim q)"]
      includes_trimmed_query[of _ q] calculateSimilarity_searchTerm[of q name]
    by blast
qed

theorem searchScouts_scores_witness:
  "str_includes (toLowerCase (fullName jonSmith)) (toLowerCase ''Smi'') \<and>
   double (7 / 10) \<le> scoutScore (toLowerCase (trim ''Smi'')) jonSmith \<and>
   trim ''Smi'' \<noteq> [] \<and>
   calculateSimilarity ''Jon Smith'' (toLowerCase (trim ''Smi''))
     = calculateSimilarity ''Jon Smith'' ''Smi'' \<and>
   jonSmith \<in> set (searchScouts ''Smi'' [johnSmyth, jonSmith]) \<and>
   \<not> scoutScore (toLowerCase (trim ''Smi'')) jonSmith \<le> double (3 / 10)"
proof -
  have h: "str_includes (toLowerCase (fullName jonSmith)) (toLowerCase ''Smi'')"
    by code_simp
  have t: "trim ''Smi'' \<noteq> []" by code_simp
  have m: "jonSmith \<in> set (searchScouts ''Smi'' [johnSmyth, jonSmith])" by code_simp
  show ?thesis
    using h t m searchScouts_scores[of "toLowerCase (trim ''Smi'')" jonSmith "''Smi''"
                  "''Jon Smith''" "[johnSmyth, jonSmith]"]
    by blast
qed

text \<open>
  C7. The results of \<^verbatim>\<open>searchScouts\<close> are in descending order of score, and the results
  of any one score are the identities of that score in the order of the corpus (all of
  them, when the query is not blank and the score exceeds 0.3; none otherwise).
\<close>

theorem searchScouts_ranking:
  "sorted_wrt (\<lambda>a b. scoutScore (toLowerCase (trim q)) b \<le> scoutScore (toLowerCase (trim q)) a)
     (searchScouts q corpus) \<and>
   filter (\<lambda>s. scoutScore (toLowerCase (trim q)) s = k) (searchScouts q corpus)
     = (if trim q = [] \<or> k \<le> double (3 / 10) then []
        else filter (\<lambda>s. scoutScore (toLowerCase (trim q)) s = k) corpus)"
  using searchScouts_descending[of q corpus] searchScouts_stable[of q k corpus] by blast

theorem searchScouts_ranking_witness:
  "searchScouts ''jon'' [johnSmyth, jonStone, jonSmith] = [jonStone, jonSmith, johnSmyth] \<and>
   scoutScore (toLowerCase (trim ''jon'')) jonStone = double (9 / 10) \<and>
   scoutScore (toLowerCase (trim ''jon'')) jonSmith = double (9 / 10) \<and>
   scoutScore (toLowerCase (trim ''jon'')) johnSmyth < double (9 / 10) \<and>
   trim ''jon'' \<noteq> [] \<and>
   double (3 / 10) < double (9 / 10) \<and>
   filter (\<lambda>s. scoutScore (toLowerCase (trim ''jon'')) s = double (9 / 10))
      (searchScouts ''jon'' [johnSmyth, jonStone, jonSmith]) = [jonStone, jonSmith]"
proof -
  have r: "searchScouts ''jon'' [johnSmyth, jonStone, jonSmith] = [jonStone, jonSmith, johnSmyth]"
    by code_simp
  have s1: "scoutScore (toLowerCase (trim ''jon'')) jonStone = double (9 / 10)" by code_simp
  have s2: "scoutScore (toLowerCase (trim ''jon'')) jonSmith = double (9 / 10)" by code_simp
  have s3: "scoutScore (toLowerCase (trim ''jon'')) johnSmyth < double (9 / 10)" by code_simp
  have t: "trim ''jon'' \<noteq> []" by code_simp
  have k': "double (3 / 10) < double (9 / 10)" by code_simp
  then have k: "\<not> double (9 / 10) \<le> double (3 / 10)" by (simp only: not_le)
  have f: "filter (\<lambda>s. scoutScore (toLowerCase (trim ''jon'')) s = double (9 / 10))
      [johnSmyth, jonStone, jonSmith] = [jonStone, jonSmith]" by code_simp
  have "filter (\<lambda>s. scoutScore (toLowerCase (trim ''jon'')) s = double (9 / 10))
      (searchScouts ''jon'' [johnSmyth, jonStone, jonSmith])
     = (if trim ''jon'' = [] \<or> double (9 / 10) \<le> double (3 / 10) then []
        else filter (\<lambda>s. scoutScore (toLowerCase (trim ''jon'')) s = double (9 / 10))
               [johnSmyth, jonStone, jonSmith])"
    using searchScouts_ranking[of "''jon''" "[johnSmyth, jonStone, jonSmith]" "double (9 / 10)"]
    by (rule conjunct2)
  then have p: "filter (\<lambda>s. scoutScore (toLowerCase (trim ''jon'')) s = double (9 / 10))
      (searchScouts ''jon'' [johnSmyth, jonStone, jonSmith]) = [jonStone, jonSmith]"
    by (simp only: t k f if_False simp_thms)
  show ?thesis
    by (intro conjI) (rule r s1 s2 s3 t k' p)+
qed

text \<open>
  The scores are doubles, and two scores that are equal as fractions may differ as
  doubles. For the query \<^verbatim>\<open>Ann\<close> the first name \<^verbatim>\<open>Jon\<close> has the similarity
  \<^verbatim>\<open>1 - 2/3\<close> and the score \<^verbatim>\<open>0.30000000000000004\<close>, which exceeds 0.3, so the identity
  is returned. For the query \<^verbatim>\<open>jon\<close> the full name \<^verbatim>\<open>Jason\<close> scores \<^verbatim>\<open>1 - 2/5 = 0.6\<close>
  and the first name \<^verbatim>\<open>Jan\<close> scores \<^verbatim>\<open>(1 - 1/3) * 0.9 = 0.6000000000000001\<close>, so
  \<^verbatim>\<open>Jan Doe\<close> is ranked before \<^verbatim>\<open>Jason\<close> although it comes later in the corpus.
\<close>

lemma searchScouts_double_threshold:
  "scoutScore ''ann'' jonDoe = 5404319552844596 / 18014398509481984 \<and>
   double (3 / 10) = 5404319552844595 / 18014398509481984 \<and>
   searchScouts ''Ann'' [jonDoe] = [jonDoe]"
  by code_simp

lemma searchScouts_double_order:
  "scoutScore ''jon'' jason = 5404319552844595 / 9007199254740992 \<and>
   scoutScore ''jon'' janDoe = 5404319552844596 / 9007199254740992 \<and>
   searchScouts ''jon'' [jason, janDoe] = [janDoe, jason]"
  by code_simp


section \<open>Event aggregator: one event per key, each name once\<close>

lemma firstSeen_Nil: "firstSeen [] = []"
  by (simp add: firstSeen_def)

lemma firstSeen_snoc:
  "firstSeen (xs @ [x]) = (if x \<in> set xs then firstSeen xs else firstSeen xs @ [x])"
  by (simp add: firstSeen_def)

lemma set_firstSeen: "set (firstSeen xs) = set xs"
  by (simp add: firstSeen_def)

lemma distinct_firstSeen: "distinct (firstSeen xs)"
  by (simp add: firstSeen_def)

lemma keys_modifyAt: "map fst (modifyAt k f m) = map fst m"
  by (induction m) (auto simp: modifyAt_def)

lemma modifyAt_Nil: "modifyAt k f [] = []"
  by (simp add: modifyAt_def)

lemma modifyAt_Cons:
  "modifyAt k f ((a, e) # m) = (a, if a = k then f e else e) # modifyAt k f m"
  by (simp add: modifyAt_def)

lemma in_modifyAt:
  "(k', e') \<in> set (modifyAt k f m) \<longleftrightarrow>
     (\<exists>e. (k', e) \<in> set m \<and> e' = (if k' = k then f e else e))"
proof (induction m)
  case Nil
  show ?case by (simp add: modifyAt_Nil)
next
  case (Cons x m)
  obtain a e where x: "x = (a, e)" by (cases x)
  show ?case unfolding x modifyAt_Cons using Cons.IH by auto
qed

lemma personNames_Nil: "personNames a k [] = []"
  by (simp add: personNames_def)

lemma personNames_snoc:
  "personNames a k (ss @ [s]) =
     personNames a k ss @
       (if validSignup s \<and> eventKey s = k \<and> isAdult s = a \<and> trim (scoutName s) \<noteq> []
        then [trim (scoutName s)] else [])"
  by (simp add: personNames_def)

lemma personNames_no_key:
  "k \<notin> eventKey ` {s \<in> set ss. validSignup s} \<Longrightarrow> personNames a k ss = []"
  by (auto simp: personNames_def filter_empty_conv)

lemma scouts_addPerson:
  "scouts (addPerson a p e) =
     (if \<not> a \<and> p \<notin> set (scouts e) then scouts e @ [p] else scouts e)"
  by (simp add: addPerson_def)

lemma adults_addPerson:
  "adults (addPerson a p e) =
     (if a \<and> p \<notin> set (adults e) then adults e @ [p] else adults e)"
  by (simp add: addPerson_def)

lemma aggInv_step:
  assumes "aggInv ss m"
  shows "aggInv (ss @ [s]) (addSignup m s)"
proof (cases "validSignup s")
  case False
  then show ?thesis
    using assms by (simp add: aggInv_def addSignup_def personNames_snoc)
next
  case True
  let ?k = "eventKey s"
  let ?p = "trim (scoutName s)"
  let ?m1 = "if map_of m ?k = None then m @ [(?k, newEvent s)] else m"
  have km: "map fst m = firstSeen (map eventKey (filter validSignup ss))"
    using assms by (simp add: aggInv_def)
  have "fst ` set m = set (map fst m)" by simp
  also have "\<dots> = set (map eventKey (filter validSignup ss))"
    unfolding km by (rule set_firstSeen)
  finally have fm: "fst ` set m = set (map eventKey (filter validSignup ss))" .
  then have keys: "fst ` set m = eventKey ` {s \<in> set ss. validSignup s}"
    by auto
  have k1: "map fst ?m1 = firstSeen (map eventKey (filter validSignup (ss @ [s])))"
    using True km by (simp add: firstSeen_snoc map_of_eq_None_iff fm del: set_map)
  have b1: "\<forall>(k, e) \<in> set ?m1. scouts e = firstSeen (personNames False k ss) \<and>
                        adults e = firstSeen (personNames True k ss)"
  proof (cases "map_of m ?k = None")
    case False
    then show ?thesis using assms by (auto simp: aggInv_def)
  next
    case None: True
    then have "?k \<notin> eventKey ` {s \<in> set ss. validSignup s}"
      using keys by (simp add: map_of_eq_None_iff)
    then have "personNames a ?k ss = []" for a by (rule personNames_no_key)
    then show ?thesis
      using assms None by (auto simp: aggInv_def newEvent_def firstSeen_Nil)
  qed
  show ?thesis
  proof (cases "?p = []")
    case True
    note p = True
    have "addSignup m s = ?m1"
      using \<open>validSignup s\<close> p by (simp add: addSignup_def Let_def)
    moreover have "personNames a k (ss @ [s]) = personNames a k ss" for a k
      using p by (simp add: personNames_snoc)
    ultimately show ?thesis
      using k1 b1 unfolding aggInv_def by simp
  next
    case False
    note p = False
    have eq: "addSignup m s = modifyAt ?k (addPerson (isAdult s) ?p) ?m1"
      using \<open>validSignup s\<close> p by (simp add: addSignup_def Let_def)
    have "scouts e' = firstSeen (personNames False k' (ss @ [s])) \<and>
          adults e' = firstSeen (personNames True k' (ss @ [s]))"
      if mem: "(k', e') \<in> set (modifyAt ?k (addPerson (isAdult s) ?p) ?m1)" for k' e'
    proof -
      obtain e where e: "(k', e) \<in> set ?m1"
        and e': "e' = (if k' = ?k then addPerson (isAdult s) ?p e else e)"
        using mem unfolding in_modifyAt by blast
      have old: "scouts e = firstSeen (personNames False k' ss)"
                "adults e = firstSeen (personNames True k' ss)"
        using b1 e by auto
      show ?thesis
        using old e' p \<open>validSignup s\<close>
        by (auto simp: personNames_snoc firstSeen_snoc scouts_addPerson adults_addPerson
              set_firstSeen)
    qed
    then show ?thesis
      unfolding aggInv_def eq using k1 by (auto simp: keys_modifyAt)
  qed
qed

lemma aggInv_eventsMapOf: "aggInv ss (eventsMapOf ss)"
proof (induction ss rule: rev_induct)
  case Nil
  show ?case by (simp add: aggInv_def eventsMapOf_def firstSeen_Nil)
next
  case (snoc s ss)
  then show ?case
    using aggInv_step[of ss "eventsMapOf ss" s] by (simp add: eventsMapOf_def)
qed


text \<open>
  C1, as the code has it. After any sequence of signups the map holds one entry for each
  key of a valid signup and no key twice. The scouts of an entry are the trimmed,
  non-empty names of the valid signups of its key that are not adults, each once, in
  the order of their first occurrence; the adults likewise. Names are compared as they
  are spelled: adding a name that is in the list already leaves the event unchanged.
  No event of \<^verbatim>\<open>convertSheetToEvents\<close> holds the same name twice.
\<close>

theorem eventsMapOf_dedup:
  "distinct (map fst (eventsMapOf signups)) \<and>
   set (map fst (eventsMapOf signups)) = eventKey ` {s \<in> set signups. validSignup s} \<and>
   (\<forall>(k, e) \<in> set (eventsMapOf signups).
       scouts e = firstSeen (personNames False k signups) \<and>
       adults e = firstSeen (personNames True k signups) \<and>
       distinct (scouts e) \<and> distinct (adults e)) \<and>
   (p \<in> set (scouts e) \<longrightarrow> addPerson False p e = e) \<and>
   (p \<in> set (adults e) \<longrightarrow> addPerson True p e = e) \<and>
   (\<forall>e \<in> set (convertSheetToEvents sd). distinct (scouts e) \<and> distinct (adults e))"
proof -
  have inv: "aggInv ss (eventsMapOf ss)" for ss by (rule aggInv_eventsMapOf)
  have keys: "map fst (eventsMapOf ss) = firstSeen (map eventKey (filter validSignup ss))" for ss
    using inv[of ss] by (simp add: aggInv_def)
  have entries: "scouts e = firstSeen (personNames False k ss) \<and>
       adults e = firstSeen (personNames True k ss) \<and>
       distinct (scouts e) \<and> distinct (adults e)"
    if "(k, e) \<in> set (eventsMapOf ss)" for k e ss
    using inv[of ss] that by (auto simp: aggInv_def distinct_firstSeen)
  have "distinct (map fst (eventsMapOf signups))"
    unfolding keys by (rule distinct_firstSeen)
  moreover have "set (map fst (eventsMapOf signups)) = eventKey ` {s \<in> set signups. validSignup s}"
    unfolding keys set_firstSeen by auto
  moreover have "\<forall>e \<in> set (convertSheetToEvents sd). distinct (scouts e) \<and> distinct (adults e)"
    unfolding convertSheetToEvents_def using entries by fastforce
  ultimately show ?thesis
    using entries[of _ _ signups] by (auto simp: addPerson_def)
qed

theorem eventsMapOf_dedup_witness:
  "eventsMapOf (map (\<lambda>row. extractEventFromRow row sheetColumns) (rows janeSheet)) \<noteq> [] \<and>
   hd (convertSheetToEvents janeSheet) \<in> set (convertSheetToEvents janeSheet) \<and>
   distinct (scouts (hd (convertSheetToEvents janeSheet))) \<and>
   distinct (adults (hd (convertSheetToEvents janeSheet))) \<and>
   ''Jane Doe'' \<in> set (scouts leafEvent) \<and>
   addPerson False ''Jane Doe'' leafEvent = leafEvent \<and>
   ''Ann Lee'' \<in> set (adults eagleEvent) \<and>
   addPerson True ''Ann Lee'' eagleEvent = eagleEvent"
proof -
  have n1: "eventsMapOf (map (\<lambda>row. extractEventFromRow row sheetColumns) (rows janeSheet)) \<noteq> []"
    by code_simp
  have n2: "hd (convertSheetToEvents janeSheet) \<in> set (convertSheetToEvents janeSheet)"
    by code_simp
  have j: "''Jane Doe'' \<in> set (scouts leafEvent)" by code_simp
  have a: "''Ann Lee'' \<in> set (adults eagleEvent)" by code_simp
  show ?thesis
    using n1 n2 j a
      eventsMapOf_dedup[of "map (\<lambda>row. extractEventFromRow row sheetColumns) (rows janeSheet)"
        "''Jane Doe''" leafEvent janeSheet]
      eventsMapOf_dedup[of "[]" "''Ann Lee''" eagleEvent janeSheet]
    by blast
qed

text \<open>
  C1, as the specification states it, has two names that agree after lower-casing and
  trimming collapse into one entry. The code keeps both: for two rows of one event with
  the names \<open>Jane Doe\<close> and \<open>jane doe\<close> followed by a space, the event holds two scouts.
\<close>

theorem convertSheetToEvents_case_counterexample:
  "convertSheetToEvents janeSheet
     = [\<lparr>eventName = ''Leaf Center Service Project'', startDate = ''2025-11-29'',
         endDate = ''2025-11-29'', category = ''Service Project'',
         scouts = [''Jane Doe'', ''jane doe''], adults = []\<rparr>] \<and>
   toLowerCase (trim ''Jane Doe'') = toLowerCase (trim ''jane doe'')"
  by code_simp


section \<open>Identity extractor: one identity per name\<close>

lemma splitWs_last:
  assumes "dropWhile (\<lambda>c. \<not> isSpace c) s = []"
  shows "splitWs s = [takeWhile (\<lambda>c. \<not> isSpace c) s]"
  using splitWs.simps[of s] unfolding Let_def by (simp only: assms if_True simp_thms)

lemma splitWs_more:
  assumes "dropWhile (\<lambda>c. \<not> isSpace c) s \<noteq> []"
  shows "splitWs s = takeWhile (\<lambda>c. \<not> isSpace c) s
                 # splitWs (dropWhile isSpace (dropWhile (\<lambda>c. \<not> isSpace c) s))"
  using splitWs.simps[of s] unfolding Let_def by (simp only: assms if_False simp_thms)

lemma splitWs_induct:
  assumes step: "\<And>s. (dropWhile (\<lambda>c. \<not> isSpace c) s \<noteq> [] \<Longrightarrow>
             P (dropWhile isSpace (dropWhile (\<lambda>c. \<not> isSpace c) s))) \<Longrightarrow> P s"
  shows "P s"
  apply (rule splitWs.induct)
  apply (rule step)
  apply simp
  done

lemma splitWs_not_Nil: "splitWs s \<noteq> []"
  by (cases "dropWhile (\<lambda>c. \<not> isSpace c) s = []") (simp_all add: splitWs_last splitWs_more)

lemma splitWs_no_space: "t \<in> set (splitWs s) \<Longrightarrow> c \<in> set t \<Longrightarrow> \<not> isSpace c"
proof (induction s rule: splitWs_induct)
  case (1 s)
  let ?tok = "takeWhile (\<lambda>c. \<not> isSpace c) s"
  let ?rest = "dropWhile (\<lambda>c. \<not> isSpace c) s"
  have tok: "\<not> isSpace c" if "c \<in> set ?tok" for c
    using that by (auto dest: set_takeWhileD)
  show ?case
  proof (cases "?rest = []")
    case True
    then have "splitWs s = [?tok]" by (rule splitWs_last)
    then show ?thesis using "1.prems" tok by auto
  next
    case False
    then have "splitWs s = ?tok # splitWs (dropWhile isSpace ?rest)"
      by (rule splitWs_more)
    then show ?thesis using "1.prems" tok "1.IH"[OF False] by auto
  qed
qed

lemma splitWs_tokens_nonempty:
  "s \<noteq> [] \<Longrightarrow> \<not> isSpace (hd s) \<Longrightarrow> \<not> isSpace (last s) \<Longrightarrow> t \<in> set (splitWs s) \<Longrightarrow> t \<noteq> []"
proof (induction s rule: splitWs_induct)
  case (1 s)
  let ?tok = "takeWhile (\<lambda>c. \<not> isSpace c) s"
  let ?rest = "dropWhile (\<lambda>c. \<not> isSpace c) s"
  have tok: "?tok \<noteq> []"
    using "1.prems"(1,2) by (cases s) auto
  show ?case
  proof (cases "?rest = []")
    case True
    then have "splitWs s = [?tok]" by (rule splitWs_last)
    then show ?thesis using "1.prems" tok by auto
  next
    case False
    let ?s' = "dropWhile isSpace ?rest"
    have sp: "splitWs s = ?tok # splitWs ?s'"
      using False by (rule splitWs_more)
    have "last (?tok @ ?rest) = last ?rest" using False by (rule last_appendR)
    then have last_rest: "last ?rest = last s" by (simp only: takeWhile_dropWhile_id)
    have ne: "?s' \<noteq> []"
    proof
      assume "?s' = []"
      then have all: "\<forall>c \<in> set ?rest. isSpace c" by (simp only: dropWhile_eq_Nil_conv)
      have "last ?rest \<in> set ?rest" using False by (rule last_in_set)
      with all have "isSpace (last ?rest)" by (rule bspec)
      then have "isSpace (last s)" by (simp only: last_rest)
      with "1.prems"(3) show False by (rule notE)
    qed
    have hd': "\<not> isSpace (hd ?s')" using ne by (rule hd_dropWhile)
    have "last (takeWhile isSpace ?rest @ ?s') = last ?s'" using ne by (rule last_appendR)
    then have "last ?s' = last ?rest" by (simp only: takeWhile_dropWhile_id)
    then have "last ?s' = last s" by (simp only: last_rest)
    from this "1.prems"(3) have last': "\<not> isSpace (last ?s')" by (rule ssubst)
    from "1.prems"(4) have "t = ?tok \<or> t \<in> set (splitWs ?s')" unfolding sp by simp
    then show ?thesis
    proof
      assume "t = ?tok"
      with tok show ?thesis by simp
    next
      assume "t \<in> set (splitWs ?s')"
      with ne hd' last' show ?thesis by (rule "1.IH"[OF False])
    qed
  qed
qed

lemma trim_tokens:
  "trim n \<noteq> [] \<Longrightarrow> t \<in> set (splitWs (trim n)) \<Longrightarrow> t \<noteq> [] \<and> (\<forall>c \<in> set t. \<not> isSpace c)"
  using splitWs_tokens_nonempty[of "trim n" t] splitWs_no_space[of t "trim n"] trim_ends[of n]
  by blast

lemma find_snoc:
  "find P (xs @ [x]) = (case find P xs of None \<Rightarrow> (if P x then Some x else None) | Some y \<Rightarrow> Some y)"
  by (induction xs) auto

lemma find_key_None: "k \<notin> set (map f xs) \<Longrightarrow> find (\<lambda>x. f x = k) xs = None"
  by (induction xs) auto

lemma cleanNames_snoc:
  "cleanNames (ns @ [n]) = cleanNames ns @ (if trim n \<noteq> [] then [trim n] else [])"
  by (simp add: cleanNames_def)

lemma addScout_cases:
  "addScout m n =
     (if trim n \<noteq> [] \<and> map_of m (toLowerCase (trim n)) = None
      then m @ [(toLowerCase (trim n), identityOf (trim n))] else m)"
  by (simp add: addScout_def identityOf_def Let_def)

lemma scoutInv_step:
  assumes "scoutInv ns m"
  shows "scoutInv (ns @ [n]) (addScout m n)"
proof (cases "trim n = []")
  case True
  then show ?thesis using assms by (simp add: scoutInv_def addScout_cases cleanNames_snoc)
next
  case False
  let ?k = "toLowerCase (trim n)"
  have km: "map fst m = firstSeen (map toLowerCase (cleanNames ns))"
    using assms by (simp add: scoutInv_def)
  have "fst ` set m = set (map fst m)" by simp
  also have "\<dots> = set (map toLowerCase (cleanNames ns))"
    unfolding km by (rule set_firstSeen)
  finally have fm: "fst ` set m = set (map toLowerCase (cleanNames ns))" .
  have old: "\<exists>name. find (\<lambda>n. toLowerCase n = k) (cleanNames (ns @ [n])) = Some name \<and> r = identityOf name"
    if kr: "(k, r) \<in> set m" for k r
  proof -
    obtain name where "find (\<lambda>n. toLowerCase n = k) (cleanNames ns) = Some name" "r = identityOf name"
      using assms kr by (auto simp: scoutInv_def)
    then show ?thesis by (simp add: cleanNames_snoc find_snoc)
  qed
  show ?thesis
  proof (cases "map_of m ?k = None")
    case True
    then have notin: "?k \<notin> set (map toLowerCase (cleanNames ns))"
      using fm by (simp add: map_of_eq_None_iff del: set_map)
    then have "find (\<lambda>n. toLowerCase n = ?k) (cleanNames ns) = None"
      by (rule find_key_None)
    then have new: "find (\<lambda>n. toLowerCase n = ?k) (cleanNames (ns @ [n])) = Some (trim n)"
      using False by (simp add: cleanNames_snoc find_snoc)
    have "map fst (addScout m n) = firstSeen (map toLowerCase (cleanNames (ns @ [n])))"
      using True False notin km by (simp add: addScout_cases cleanNames_snoc firstSeen_snoc del: set_map)
    then show ?thesis
      unfolding scoutInv_def using True False old new by (auto simp: addScout_cases)
  next
    case in_map: False
    then have isin: "?k \<in> set (map toLowerCase (cleanNames ns))"
      using fm by (simp add: map_of_eq_None_iff del: set_map)
    have "map fst (addScout m n) = firstSeen (map toLowerCase (cleanNames (ns @ [n])))"
      using in_map False isin km by (simp add: addScout_cases cleanNames_snoc firstSeen_snoc del: set_map)
    then show ?thesis
      unfolding scoutInv_def using in_map old by (auto simp: addScout_cases)
  qed
qed

lemma scoutInv_foldl: "scoutInv ns (foldl addScout [] ns)"
proof (induction ns rule: rev_induct)
  case Nil
  show ?case by (simp add: scoutInv_def cleanNames_def firstSeen_Nil)
next
  case (snoc n ns)
  then show ?case using scoutInv_step[of ns "foldl addScout [] ns" n] by simp
qed

lemma foldl_addEventScouts:
  "foldl addEventScouts m es = foldl addScout m (concat (map scouts es))"
  by (induction es arbitrary: m) (simp_all add: addEventScouts_def)

lemma extractUniqueScouts_names:
  "extractUniqueScouts f p = map snd (foldl addScout [] (concat (map scouts (f @ p))))"
  by (simp add: extractUniqueScouts_def foldl_addEventScouts)

lemma identityOf_fields:
  assumes "trim n \<noteq> []"
  shows "fullName (identityOf (trim n)) = trim n"
    and "normalized (identityOf (trim n)) = toLowerCase (trim n)"
    and "firstName (identityOf (trim n)) = hd (splitWs (trim n))"
    and "lastName (identityOf (trim n)) = joinSpace (tl (splitWs (trim n)))"
proof -
  obtain p ps where sp: "splitWs (trim n) = p # ps"
    using splitWs_not_Nil[of "trim n"] by (cases "splitWs (trim n)") auto
  show "fullName (identityOf (trim n)) = trim n"
    and "normalized (identityOf (trim n)) = toLowerCase (trim n)"
    and "firstName (identityOf (trim n)) = hd (splitWs (trim n))"
    and "lastName (identityOf (trim n)) = joinSpace (tl (splitWs (trim n)))"
    by (simp_all add: identityOf_def sp)
qed

lemma in_cleanNames: "name \<in> set (cleanNames ns) \<Longrightarrow> \<exists>n \<in> set ns. name = trim n \<and> trim n \<noteq> []"
  by (auto simp: cleanNames_def)

lemma scoutMap_entry:
  assumes "(k, r) \<in> set (foldl addScout [] ns)"
  shows "\<exists>n \<in> set ns. trim n \<noteq> [] \<and> k = toLowerCase (trim n) \<and> r = identityOf (trim n) \<and>
           find (\<lambda>x. toLowerCase x = k) (cleanNames ns) = Some (trim n)"
proof -
  obtain name where f: "find (\<lambda>x. toLowerCase x = k) (cleanNames ns) = Some name"
    and r: "r = identityOf name"
    using scoutInv_foldl[of ns] assms by (auto simp: scoutInv_def)
  from f have "name \<in> set (cleanNames ns)" "toLowerCase name = k"
    by (auto simp: find_Some_iff)
  then obtain n where "n \<in> set ns" "name = trim n" "trim n \<noteq> []"
    using in_cleanNames by blast
  then show ?thesis using f r \<open>toLowerCase name = k\<close> by auto
qed

lemma convertSheetToEvents_scouts_trimmed:
  assumes "e \<in> set (convertSheetToEvents sd)" "n \<in> set (scouts e)"
  shows "n \<noteq> [] \<and> trim n = n"
proof -
  let ?ss = "map (\<lambda>row. extractEventFromRow row (columns sd)) (rows sd)"
  obtain k where "(k, e) \<in> set (eventsMapOf ?ss)"
    using assms(1) unfolding convertSheetToEvents_def by auto
  then have "scouts e = firstSeen (personNames False k ?ss)"
    using aggInv_eventsMapOf[of ?ss] by (auto simp: aggInv_def)
  then have "n \<in> set (personNames False k ?ss)"
    using assms(2) by (simp add: set_firstSeen)
  then show ?thesis by (auto simp: personNames_def trim_idem)
qed

lemma cleanNames_trimmed:
  assumes "\<forall>n \<in> set ns. n \<noteq> [] \<and> trim n = n"
  shows "cleanNames ns = ns"
proof -
  have "map trim ns = ns" using assms by (simp add: map_idI)
  then show ?thesis using assms by (simp add: cleanNames_def)
qed

text \<open>
  C8. \<^verbatim>\<open>extractUniqueScouts\<close> walks the scout entries of the future events and then of
  the past events and trims each; an entry that is then empty, which the aggregator
  never produces, is skipped. It returns one identity for each distinct lower-cased
  name, in the order in which the keys are first seen. The full name of an identity is
  the first trimmed name with its key; its first name is the first token of that name
  and its last name the remaining tokens joined by single spaces, the tokens being the
  non-empty runs of characters that are not white space. The result depends on the
  events through their scouts alone. The scout entries of the events of
  \<^verbatim>\<open>convertSheetToEvents\<close> are trimmed and not empty, so for the lists the
  classifier makes of them the keys are those of the scout entries as they stand.
\<close>

theorem extractUniqueScouts_identities:
  "map normalized (extractUniqueScouts f p)
     = firstSeen (map toLowerCase (cleanNames (concat (map scouts (f @ p))))) \<and>
   (\<forall>r \<in> set (extractUniqueScouts f p).
       find (\<lambda>n. toLowerCase n = normalized r) (cleanNames (concat (map scouts (f @ p))))
         = Some (fullName r) \<and>
       splitWs (fullName r) \<noteq> [] \<and>
       firstName r = hd (splitWs (fullName r)) \<and>
       lastName r = joinSpace (tl (splitWs (fullName r))) \<and>
       (\<forall>t \<in> set (splitWs (fullName r)). t \<noteq> [] \<and> (\<forall>c \<in> set t. \<not> isSpace c))) \<and>
   (map scouts f' = map scouts f \<and> map scouts p' = map scouts p
      \<longrightarrow> extractUniqueScouts f' p' = extractUniqueScouts f p) \<and>
   ((\<forall>e \<in> set (f @ p). \<forall>n \<in> set (scouts e). n \<noteq> [] \<and> trim n = n)
      \<longrightarrow> cleanNames (concat (map scouts (f @ p))) = concat (map scouts (f @ p))) \<and>
   (\<forall>e \<in> set (convertSheetToEvents sd). \<forall>n \<in> set (scouts e). n \<noteq> [] \<and> trim n = n) \<and>
   map normalized
     (extractUniqueScouts (fst (classifyEvents parseDate startOfDay today (convertSheetToEvents sd)))
                          (snd (classifyEvents parseDate startOfDay today (convertSheetToEvents sd))))
     = firstSeen (map toLowerCase (concat (map scouts
         (fst (classifyEvents parseDate startOfDay today (convertSheetToEvents sd)) @
          snd (classifyEvents parseDate startOfDay today (convertSheetToEvents sd))))))"
proof -
  have keys_of: "map normalized (extractUniqueScouts f p)
       = firstSeen (map toLowerCase (cleanNames (concat (map scouts (f @ p)))))" for f p
  proof -
    let ?ns = "concat (map scouts (f @ p))"
    let ?m = "foldl addScout [] ?ns"
    have res: "extractUniqueScouts f p = map snd ?m" by (rule extractUniqueScouts_names)
    have a: "map normalized (map snd ?m) = map fst ?m"
      unfolding map_map
    proof (rule map_cong[OF refl])
      fix x assume xm: "x \<in> set ?m"
      obtain k r where x: "x = (k, r)" by (cases x)
      with xm have "(k, r) \<in> set ?m" by simp
      then obtain n where "trim n \<noteq> []" "k = toLowerCase (trim n)" "r = identityOf (trim n)"
        using scoutMap_entry by blast
      then show "(normalized \<circ> snd) x = fst x" using x by (simp add: identityOf_fields)
    qed
    have b: "map fst ?m = firstSeen (map toLowerCase (cleanNames ?ns))"
      using scoutInv_foldl[of ?ns] by (simp add: scoutInv_def)
    show ?thesis unfolding res using a b by (rule trans)
  qed
  let ?ns = "concat (map scouts (f @ p))"
  let ?m = "foldl addScout [] ?ns"
  have res: "extractUniqueScouts f p = map snd ?m" by (rule extractUniqueScouts_names)
  have keys: "map normalized (extractUniqueScouts f p)
       = firstSeen (map toLowerCase (cleanNames ?ns))"
    by (rule keys_of)
  have each: "find (\<lambda>n. toLowerCase n = normalized r) (cleanNames ?ns) = Some (fullName r) \<and>
       splitWs (fullName r) \<noteq> [] \<and>
       firstName r = hd (splitWs (fullName r)) \<and>
       lastName r = joinSpace (tl (splitWs (fullName r))) \<and>
       (\<forall>t \<in> set (splitWs (fullName r)). t \<noteq> [] \<and> (\<forall>c \<in> set t. \<not> isSpace c))"
    if "r \<in> set (extractUniqueScouts f p)" for r
  proof -
    from that obtain k where "(k, r) \<in> set ?m" unfolding res by auto
    then obtain n where n: "trim n \<noteq> []" "k = toLowerCase (trim n)" "r = identityOf (trim n)"
      "find (\<lambda>x. toLowerCase x = k) (cleanNames ?ns) = Some (trim n)"
      using scoutMap_entry by blast
    show ?thesis
      using n trim_tokens[OF n(1)] splitWs_not_Nil[of "trim n"]
      by (simp add: identityOf_fields)
  qed
  have "extractUniqueScouts f' p' = extractUniqueScouts f p"
    if "map scouts f' = map scouts f" "map scouts p' = map scouts p"
    using that by (simp add: extractUniqueScouts_names)
  then have dep: "map scouts f' = map scouts f \<and> map scouts p' = map scouts p
      \<longrightarrow> extractUniqueScouts f' p' = extractUniqueScouts f p" by blast
  have clean: "(\<forall>e \<in> set (f @ p). \<forall>n \<in> set (scouts e). n \<noteq> [] \<and> trim n = n)
      \<longrightarrow> cleanNames (concat (map scouts (f @ p))) = concat (map scouts (f @ p))" for f p :: "event list"
  proof
    assume "\<forall>e \<in> set (f @ p). \<forall>n \<in> set (scouts e). n \<noteq> [] \<and> trim n = n"
    then have "\<forall>n \<in> set (concat (map scouts (f @ p))). n \<noteq> [] \<and> trim n = n"
      by auto
    then show "cleanNames (concat (map scouts (f @ p))) = concat (map scouts (f @ p))"
      by (rule cleanNames_trimmed)
  qed
  have trimmed: "\<forall>e \<in> set (convertSheetToEvents sd). \<forall>n \<in> set (scouts e). n \<noteq> [] \<and> trim n = n"
    using convertSheetToEvents_scouts_trimmed by blast
  let ?cl = "classifyEvents parseDate startOfDay today (convertSheetToEvents sd)"
  have sub: "set (fst ?cl @ snd ?cl) \<subseteq> set (convertSheetToEvents sd)"
    by (auto simp: classifyEvents_filter)
  have "cleanNames (concat (map scouts (fst ?cl @ snd ?cl))) = concat (map scouts (fst ?cl @ snd ?cl))"
    using clean[of "fst ?cl" "snd ?cl"] trimmed sub by blast
  then have pipe: "map normalized (extractUniqueScouts (fst ?cl) (snd ?cl))
     = firstSeen (map toLowerCase (concat (map scouts (fst ?cl @ snd ?cl))))"
    using keys_of[of "fst ?cl" "snd ?cl"] by simp
  show ?thesis
    using keys each dep clean[of f p] trimmed pipe by (intro conjI) blast+
qed

theorem extractUniqueScouts_identities_witness:
  "extractUniqueScouts [leafEvent, eagleEvent] [undatedEvent]
     = [\<lparr>fullName = ''Jane Doe'', firstName = ''Jane'', lastName = ''Doe'',
          normalized = ''jane doe''\<rparr>, jonSmith, johnSmyth] \<and>
   jonSmith \<in> set (extractUniqueScouts [leafEvent, eagleEvent] [undatedEvent]) \<and>
   firstName jonSmith = hd (splitWs (fullName jonSmith)) \<and>
   lastName jonSmith = joinSpace (tl (splitWs (fullName jonSmith))) \<and>
   ''Jon'' \<in> set (splitWs (fullName jonSmith)) \<and>
   map scouts [leafEvent, eagleEvent\<lparr>adults := [''Jon Stone'']\<rparr>] = map scouts [leafEvent, eagleEvent] \<and>
   map scouts [undatedEvent] = map scouts [undatedEvent] \<and>
   extractUniqueScouts [leafEvent, eagleEvent\<lparr>adults := [''Jon Stone'']\<rparr>] [undatedEvent]
     = extractUniqueScouts [leafEvent, eagleEvent] [undatedEvent] \<and>
   cleanNames (concat (map scouts ([leafEvent, eagleEvent] @ [undatedEvent])))
     = concat (map scouts ([leafEvent, eagleEvent] @ [undatedEvent])) \<and>
   hd (convertSheetToEvents janeSheet) \<in> set (convertSheetToEvents janeSheet) \<and>
   scouts (hd (convertSheetToEvents janeSheet)) = [''Jane Doe'', ''jane doe''] \<and>
   trim ''jane doe'' = ''jane doe'' \<and>
   map normalized
     (extractUniqueScouts
        (fst (classifyEvents knownDates (startOfDayIn 0) 1764374400000 (convertSheetToEvents janeSheet)))
        (snd (classifyEvents knownDates (startOfDayIn 0) 1764374400000 (convertSheetToEvents janeSheet))))
     = [''jane doe'']"
proof -
  have r: "extractUniqueScouts [leafEvent, eagleEvent] [undatedEvent]
     = [\<lparr>fullName = ''Jane Doe'', firstName = ''Jane'', lastName = ''Doe'',
          normalized = ''jane doe''\<rparr>, jonSmith, johnSmyth]" by code_simp
  have m: "jonSmith \<in> set (extractUniqueScouts [leafEvent, eagleEvent] [undatedEvent])"
    unfolding r by simp
  have t: "''Jon'' \<in> set (splitWs (fullName jonSmith))" by code_simp
  have s: "map scouts [leafEvent, eagleEvent\<lparr>adults := [''Jon Stone'']\<rparr>] = map scouts [leafEvent, eagleEvent]"
    by simp
  have s': "map scouts [undatedEvent] = map scouts [undatedEvent]" by simp
  have c: "cleanNames (concat (map scouts ([leafEvent, eagleEvent] @ [undatedEvent])))
     = concat (map scouts ([leafEvent, eagleEvent] @ [undatedEvent]))" by code_simp
  have h: "hd (convertSheetToEvents janeSheet) \<in> set (convertSheetToEvents janeSheet)"
    by code_simp
  have j: "scouts (hd (convertSheetToEvents janeSheet)) = [''Jane Doe'', ''jane doe'']"
    by code_simp
  have t2: "trim ''jane doe'' = ''jane doe''" by code_simp
  have fs: "firstSeen (map toLowerCase (concat (map scouts
         (fst (classifyEvents knownDates (startOfDayIn 0) 1764374400000 (convertSheetToEvents janeSheet)) @
          snd (classifyEvents knownDates (startOfDayIn 0) 1764374400000 (convertSheetToEvents janeSheet))))))
        = [''jane doe'']" by code_simp
  note inst = extractUniqueScouts_identities[of "[leafEvent, eagleEvent]" "[undatedEvent]"
        "[leafEvent, eagleEvent\<lparr>adults := [''Jon Stone'']\<rparr>]" "[undatedEvent]"
        janeSheet knownDates "startOfDayIn 0" 1764374400000]
  have e: "extractUniqueScouts [leafEvent, eagleEvent\<lparr>adults := [''Jon Stone'']\<rparr>] [undatedEvent]
     = extractUniqueScouts [leafEvent, eagleEvent] [undatedEvent]"
    using inst s s' by blast
  have f1: "firstName jonSmith = hd (splitWs (fullName jonSmith))"
    and f2: "lastName jonSmith = joinSpace (tl (splitWs (fullName jonSmith)))"
    using inst m by blast+
  have p: "map normalized
     (extractUniqueScouts
        (fst (classifyEvents knownDates (startOfDayIn 0) 1764374400000 (convertSheetToEvents janeSheet)))
        (snd (classifyEvents knownDates (startOfDayIn 0) 1764374400000 (convertSheetToEvents janeSheet))))
     = [''jane doe'']"
    using inst fs by (simp only:)
  show ?thesis
    by (intro conjI) (rule r m f1 f2 t s s' e c h j t2 p)+
qed

text \<open>A blank scout entry, which no event of the aggregator holds, gives no identity.\<close>

lemma extractUniqueScouts_skips_blank:
  "scouts blankNameEvent = ['' ''] \<and> extractUniqueScouts [blankNameEvent] [] = []"
  by code_simp

end
